theory Spec2Isabelle
  imports Main "HOL-Library.AList" "HOL-Library.Sublist" "HOL-Library.Multiset"
begin

section \<open>The bs (big sibling) container manager: provision/docker/bs/bs.go\<close>

subsection \<open>Strings\<close>

text \<open>
  \<open>strings.SplitN(s, sep, n)\<close> for a separator of one character: at most \<open>n\<close> parts,
  the last one the unsplit remainder; \<open>n = 0\<close> gives no part at all.
\<close>

fun SplitN :: "string \<Rightarrow> char \<Rightarrow> nat \<Rightarrow> string list" where
  "SplitN s sep 0 = []"
| "SplitN s sep (Suc 0) = [s]"
| "SplitN s sep (Suc (Suc n)) =
     (if sep \<in> set s
      then takeWhile (\<lambda>c. c \<noteq> sep) s # SplitN (tl (dropWhile (\<lambda>c. c \<noteq> sep) s)) sep (Suc n)
      else [s])"

text \<open>\<open>strings.HasPrefix(s, p)\<close> and \<open>strings.TrimRight(s, cutset)\<close>.\<close>

definition HasPrefix :: "string \<Rightarrow> string \<Rightarrow> bool" where
  "HasPrefix s p = prefix p s"

definition TrimRight :: "string \<Rightarrow> string \<Rightarrow> string" where
  "TrimRight s cutset = rev (dropWhile (\<lambda>c. c \<in> set cutset) (rev s))"

text \<open>\<open>strconv.Itoa\<close>: the decimal digits, with a minus sign for a negative number.\<close>

fun natToDecimal :: "nat \<Rightarrow> string" where
  "natToDecimal n =
     (if n < 10 then [''0123456789'' ! n]
      else natToDecimal (n div 10) @ [''0123456789'' ! (n mod 10)])"

declare natToDecimal.simps [simp del]

definition Itoa :: "int \<Rightarrow> string" where
  "Itoa i = (if i < 0 then CHR ''-'' # natToDecimal (nat (- i)) else natToDecimal (nat i))"

text \<open>The lines of a text: the pieces between line feeds (\<open>0x0A\<close>).\<close>

fun splitLines :: "string \<Rightarrow> string list" where
  "splitLines [] = [[]]"
| "splitLines (c # cs) =
     (if c = CHR 0x0A then [] # splitLines cs
      else (case splitLines cs of [] \<Rightarrow> [[c]] | l # ls \<Rightarrow> (c # l) # ls))"

subsection \<open>Data model\<close>

text \<open>
  The structs \<open>Env\<close>, \<open>PoolEnvs\<close> and \<open>Config\<close> (bs.go, lines 42-58). The fields
  \<open>Name\<close> and \<open>Envs\<close> of \<open>PoolEnvs\<close> are \<open>Pool_Name\<close> and \<open>Pool_Envs\<close> here, since a
  field name is a constant of the theory.
\<close>

record Env =
  Name :: string
  Value :: string

record PoolEnvs =
  Pool_Name :: string
  Pool_Envs :: "Env list"

record Config =
  ID :: string
  Image :: string
  Token :: string
  Envs :: "Env list"
  Pools :: "PoolEnvs list"

text \<open>
  \<open>EnvMap\<close> and \<open>PoolEnvMap\<close> are Go maps. A map is an association list with one pair
  for each key; \<open>map_of\<close> reads it, \<open>AList.update\<close> assigns and \<open>AList.delete\<close> deletes.
  The order of the pairs has no meaning: a \<open>range\<close> loop visits them in an order the
  runtime chooses (see \<open>rangeEnvMap\<close> below). A map argument is an allocated map; the
  nil map, on which an assignment panics, is not a value of the model, and an absent
  key stands for a pool whose map is nil.
\<close>

type_synonym EnvMap = "(string \<times> string) list"

type_synonym PoolEnvMap = "(string \<times> EnvMap) list"

text \<open>
  Errors are values. \<open>Errorf\<close> is an error made by \<open>fmt.Errorf\<close> or \<open>errors.New\<close> with
  its message; \<open>ErrNotFound\<close> is \<open>mgo.ErrNotFound\<close>; \<open>ErrDup\<close> is any error for which
  \<open>mgo.IsDup\<close> holds; \<open>ErrContainerAlreadyExists\<close> is the docker client's sentinel;
  \<open>ErrExternal\<close> is any other error of a service outside the package.
\<close>

datatype error =
    Errorf string
  | ErrNotFound
  | ErrDup string
  | ErrContainerAlreadyExists
  | ErrExternal string

fun IsDup :: "error \<Rightarrow> bool" where
  "IsDup (ErrDup _) = True"
| "IsDup _ = False"

fun Error :: "error \<Rightarrow> string" where
  "Error (Errorf msg) = msg"
| "Error ErrNotFound = ''not found''"
| "Error (ErrDup msg) = msg"
| "Error ErrContainerAlreadyExists = ''container already exists''"
| "Error (ErrExternal msg) = msg"

definition bsUniqueID :: string where
  "bsUniqueID = ''bs''"

subsection \<open>Merging a configuration into the environment maps\<close>

text \<open>The map literal \<open>forbiddenList\<close> of \<open>UpdateEnvMaps\<close>; a key that is absent reads as false.\<close>

definition forbiddenList :: "string \<Rightarrow> bool" where
  "forbiddenList name =
     (name \<in> set [''DOCKER_ENDPOINT'', ''TSURU_ENDPOINT'', ''SYSLOG_LISTEN_ADDRESS'', ''TSURU_TOKEN''])"

text \<open>
  The body shared by the two loops over environment entries (lines 71-80 on \<open>envMap\<close>,
  lines 85-94 on \<open>poolEnvMap[p.Name]\<close>): it returns at the first forbidden name with the
  map as the earlier entries left it.
\<close>

fun updateEnvs :: "Env list \<Rightarrow> EnvMap \<Rightarrow> error option \<times> EnvMap" where
  "updateEnvs [] envMap = (None, envMap)"
| "updateEnvs (env # envs) envMap =
     (if forbiddenList (Name env)
      then (Some (Errorf (''cannot set '' @ Name env @ '' variable'')), envMap)
      else if Value env = [] then updateEnvs envs (AList.delete (Name env) envMap)
      else updateEnvs envs (AList.update (Name env) (Value env) envMap))"

text \<open>
  The loop over \<open>conf.Pools\<close> (lines 81-95). A pool without a map gets an empty one
  before its entries are read; the inner loop then changes that map in place.
\<close>

fun updatePools :: "PoolEnvs list \<Rightarrow> PoolEnvMap \<Rightarrow> error option \<times> PoolEnvMap" where
  "updatePools [] poolEnvMap = (None, poolEnvMap)"
| "updatePools (p # ps) poolEnvMap =
     (let created = (case map_of poolEnvMap (Pool_Name p) of None \<Rightarrow> [] | Some m \<Rightarrow> m)
      in case updateEnvs (Pool_Envs p) created of
           (Some err, m) \<Rightarrow> (Some err, AList.update (Pool_Name p) m poolEnvMap)
         | (None, m) \<Rightarrow> updatePools ps (AList.update (Pool_Name p) m poolEnvMap))"

text \<open>\<open>Config.UpdateEnvMaps\<close> (lines 64-97): the error, and the two maps as the call leaves them.\<close>

definition UpdateEnvMaps :: "Config \<Rightarrow> EnvMap \<Rightarrow> PoolEnvMap \<Rightarrow> error option \<times> EnvMap \<times> PoolEnvMap" where
  "UpdateEnvMaps conf envMap poolEnvMap =
     (case updateEnvs (Envs conf) envMap of
        (Some err, envMap') \<Rightarrow> (Some err, envMap', poolEnvMap)
      | (None, envMap') \<Rightarrow>
          (case updatePools (Pools conf) poolEnvMap of
             (r, poolEnvMap') \<Rightarrow> (r, envMap', poolEnvMap')))"

subsection \<open>The merge in the words of the specification\<close>

text \<open>
  The names of a patch in the order \<open>UpdateEnvMaps\<close> reads them: all global entries,
  then the entries of each pool.
\<close>

definition patchNames :: "Config \<Rightarrow> string list" where
  "patchNames conf =
     map Name (Envs conf) @ concat (map (\<lambda>p. map Name (Pool_Envs p)) (Pools conf))"

text \<open>
  The part of a patch before its first forbidden entry: the global entries before it
  and, when no global entry is forbidden, the pools up to the one that holds it, that
  pool with the entries before it.
\<close>

fun poolsBefore :: "PoolEnvs list \<Rightarrow> PoolEnvs list" where
  "poolsBefore [] = []"
| "poolsBefore (p # ps) =
     (if \<exists>e\<in>set (Pool_Envs p). forbiddenList (Name e)
      then [p\<lparr>Pool_Envs := takeWhile (\<lambda>e. \<not> forbiddenList (Name e)) (Pool_Envs p)\<rparr>]
      else p # poolsBefore ps)"

definition beforeForbidden :: "Config \<Rightarrow> Config" where
  "beforeForbidden conf =
     conf\<lparr>Envs := takeWhile (\<lambda>e. \<not> forbiddenList (Name e)) (Envs conf),
          Pools := (if \<exists>e\<in>set (Envs conf). forbiddenList (Name e) then []
                    else poolsBefore (Pools conf))\<rparr>"

text \<open>
  The entries of a patch in the order \<open>UpdateEnvMaps\<close> reads them, each with its target:
  \<open>None\<close> for the global map, \<open>Some pool\<close> for the map of a pool. The applied entries
  are those before the first entry with a forbidden name, and \<open>entriesFor\<close> picks the
  entries of one target.
\<close>

definition patchEntries :: "Config \<Rightarrow> (string option \<times> Env) list" where
  "patchEntries conf =
     map (Pair None) (Envs conf)
     @ concat (map (\<lambda>p. map (Pair (Some (Pool_Name p))) (Pool_Envs p)) (Pools conf))"

definition appliedEntries :: "Config \<Rightarrow> (string option \<times> Env) list" where
  "appliedEntries conf = takeWhile (\<lambda>te. \<not> forbiddenList (Name (snd te))) (patchEntries conf)"

definition entriesFor :: "string option \<Rightarrow> (string option \<times> Env) list \<Rightarrow> Env list" where
  "entriesFor target es = map snd (filter (\<lambda>te. fst te = target) es)"

text \<open>
  The rule for one key \<open>k\<close> of a target map that held \<open>old\<close>: the last entry named \<open>k\<close>
  decides, an empty value deletes the key and any other value is stored; without such
  an entry the key keeps what it had.
\<close>

definition lastEntry :: "Env list \<Rightarrow> string \<Rightarrow> Env option" where
  "lastEntry es k = find (\<lambda>e. Name e = k) (rev es)"

definition entryEffect :: "Env list \<Rightarrow> string \<Rightarrow> string option \<Rightarrow> string option" where
  "entryEffect es k old =
     (case lastEntry es k of
        None \<Rightarrow> old
      | Some e \<Rightarrow> if Value e = [] then None else Some (Value e))"

text \<open>The entries a patch holds for the pool \<open>pool\<close>, and the value of a key in the map of a pool.\<close>

definition poolEntries :: "PoolEnvs list \<Rightarrow> string \<Rightarrow> Env list" where
  "poolEntries ps pool = concat (map Pool_Envs (filter (\<lambda>p. Pool_Name p = pool) ps))"

definition poolLookup :: "PoolEnvMap \<Rightarrow> string \<Rightarrow> string \<Rightarrow> string option" where
  "poolLookup poolEnvMap pool k =
     (case map_of poolEnvMap pool of None \<Rightarrow> None | Some m \<Rightarrow> map_of m k)"

text \<open>The keys of the map of a pool; none when the pool has no map.\<close>

definition poolKeys :: "PoolEnvMap \<Rightarrow> string \<Rightarrow> string set" where
  "poolKeys pm pool = (case map_of pm pool of None \<Rightarrow> {} | Some m \<Rightarrow> dom (map_of m))"

text \<open>Two patches for the examples: one with a forbidden name in its second pool, one without.\<close>

definition patchWithToken :: Config where
  "patchWithToken =
     \<lparr>ID = [], Image = [], Token = [],
      Envs = [\<lparr>Name = ''A'', Value = ''1''\<rparr>, \<lparr>Name = ''B'', Value = []\<rparr>],
      Pools = [\<lparr>Pool_Name = ''p1'', Pool_Envs = [\<lparr>Name = ''C'', Value = ''3''\<rparr>]\<rparr>,
               \<lparr>Pool_Name = ''p2'',
                Pool_Envs = [\<lparr>Name = ''D'', Value = ''4''\<rparr>, \<lparr>Name = ''TSURU_TOKEN'', Value = ''x''\<rparr>,
                             \<lparr>Name = ''E'', Value = ''5''\<rparr>]\<rparr>,
               \<lparr>Pool_Name = ''p3'', Pool_Envs = [\<lparr>Name = ''F'', Value = ''6''\<rparr>]\<rparr>]\<rparr>"

definition patchAllowed :: Config where
  "patchAllowed =
     \<lparr>ID = [], Image = [], Token = [],
      Envs = [\<lparr>Name = ''A'', Value = ''1''\<rparr>, \<lparr>Name = ''B'', Value = []\<rparr>, \<lparr>Name = ''A'', Value = ''2''\<rparr>],
      Pools = [\<lparr>Pool_Name = ''p1'', Pool_Envs = [\<lparr>Name = ''C'', Value = ''3''\<rparr>]\<rparr>,
               \<lparr>Pool_Name = ''p2'', Pool_Envs = []\<rparr>]\<rparr>"

subsection \<open>Image pinning\<close>

text \<open>
  \<open>shouldPinBsImage\<close> (lines 323-327). \<open>parts\<close> is never empty, so the index
  \<open>len(parts)-1\<close> is in range.
\<close>

definition shouldPinBsImage :: "string \<Rightarrow> bool" where
  "shouldPinBsImage img =
     (let parts = SplitN img (CHR ''/'') 3;
          lastPart = parts ! (length parts - 1)
      in length (SplitN lastPart (CHR '':'') 2) < 2)"

text \<open>
  The rule in the words of the specification: the trailing path segment is what follows
  the last \<open>/\<close>, and the reference is pinned when that segment has no \<open>:\<close>.
\<close>

definition trailingSegment :: "string \<Rightarrow> string" where
  "trailingSegment s = rev (takeWhile (\<lambda>c. c \<noteq> CHR ''/'') (rev s))"

definition pinnedByTrailingSegment :: "string \<Rightarrow> bool" where
  "pinnedByTrailingSegment img = (CHR '':'' \<notin> set (trailingSegment img))"

text \<open>
  The path segments of a reference are the pieces between its \<open>/\<close>. In an image
  reference \<open>[registry[:port]/]name[:tag][@digest]\<close> a \<open>:\<close> stands in the registry
  part, which is the first segment, or after the name, in the last one. The property
  of a reference used below asks less: no segment from the third on, the last one
  apart, holds a \<open>:\<close>.
\<close>

fun pathSegments :: "string \<Rightarrow> string list" where
  "pathSegments [] = [[]]"
| "pathSegments (c # cs) =
     (if c = CHR ''/'' then [] # pathSegments cs
      else (case pathSegments cs of [] \<Rightarrow> [[c]] | seg # segs \<Rightarrow> (c # seg) # segs))"

definition middleWithoutColon :: "string \<Rightarrow> bool" where
  "middleWithoutColon img =
     list_all (\<lambda>seg. CHR '':'' \<notin> set seg) (butlast (drop 2 (pathSegments img)))"

text \<open>
  \<open>digestRegexp\<close> (line 27) is \<open>(?m)^Digest: (.*)$\<close>. In multi-line mode \<open>^\<close> stands
  at the start of the text or after a line feed, \<open>.\<close> is any character but the line
  feed and \<open>$\<close> stands before a line feed or at the end: a match is a whole line
  that begins with \<open>Digest: \<close>, and its group is the rest of that line.
  \<open>digestMatches\<close> lists every match from left to right as Go's submatch slice (the
  match, then the group); \<open>FindAllStringSubmatch(s, n)\<close> keeps the first \<open>n\<close>.
\<close>

definition digestMatches :: "string \<Rightarrow> string list list" where
  "digestMatches s = map (\<lambda>l. [l, drop 8 l]) (filter (prefix ''Digest: '') (splitLines s))"

definition FindAllStringSubmatch :: "string \<Rightarrow> nat \<Rightarrow> string list list" where
  "FindAllStringSubmatch s n = take n (digestMatches s)"

text \<open>
  The rule for the digest in the words of the specification: the values of the lines of
  the pull output that match \<open>Digest: <value>\<close>, in their order, and the reference
  with the value of the last of them appended (the reference itself when no line matches).
\<close>

definition digestValues :: "string \<Rightarrow> string list" where
  "digestValues out = map (drop 8) (filter (prefix ''Digest: '') (splitLines out))"

definition withLastDigest :: "string \<Rightarrow> string \<Rightarrow> string" where
  "withLastDigest img out =
     (case digestValues out of [] \<Rightarrow> img | _ # _ \<Rightarrow> img @ ''@'' @ last (digestValues out))"

text \<open>The same with the value of the first matching line.\<close>

definition withFirstDigest :: "string \<Rightarrow> string \<Rightarrow> string" where
  "withFirstDigest img out =
     (case digestValues out of [] \<Rightarrow> img | v # _ \<Rightarrow> img @ ''@'' @ v)"

subsection \<open>The world outside the package\<close>

text \<open>
  The configuration file read through \<open>config.GetString\<close> and \<open>config.GetInt\<close>: the
  four keys the package reads. The package drops the error of every read, so a missing
  key is the empty string or zero.
\<close>

record Settings =
  host :: string
  docker_bs_image :: string
  docker_bs_socket :: string
  docker_bs_syslog_port :: int

text \<open>
  The collection \<open>bsconfig\<close> holds BSON documents. A document maps field names to
  values, of which the package writes strings, the list of global entries and the list
  of pool entries; the collection maps an \<open>_id\<close> to its document.
\<close>

datatype bval = BString string | BEnvs "Env list" | BPools "PoolEnvs list"

type_synonym doc = "string \<rightharpoonup> bval"

type_synonym coll = "string \<rightharpoonup> doc"

text \<open>
  The conditions of a selector beside \<open>_id\<close>: a field equal to a value, a field present
  or absent (\<open>$exists\<close>), and \<open>$or\<close> over documents of conditions.
\<close>

datatype cond = FieldEq string bval | FieldExists string bool | Or "cond list list"

fun matches :: "doc \<Rightarrow> cond \<Rightarrow> bool" where
  "matches d (FieldEq f v) = (d f = Some v)"
| "matches d (FieldExists f b) = ((d f \<noteq> None) = b)"
| "matches d (Or qs) = list_ex (list_all (matches d)) qs"

text \<open>
  The upsert of the storage layer (gopkg.in/mgo.v2 over MongoDB, outside this
  repository) for a selector that fixes \<open>_id\<close>: the stored document is updated when it
  satisfies the other conditions; when no document has that \<open>_id\<close> one is inserted; and
  when the document is there but does not satisfy the conditions the insertion collides
  with it, which is the duplicate-key error. \<open>$set\<close> writes the listed fields and no other.
\<close>

definition mgoUpsert :: "string \<Rightarrow> cond list \<Rightarrow> (string \<times> bval) list \<Rightarrow> coll \<Rightarrow> error option \<times> coll" where
  "mgoUpsert i q upd c =
     (case c i of
        None \<Rightarrow> (None, c(i \<mapsto> [''_id'' \<mapsto> BString i] ++ map_of upd))
      | Some d \<Rightarrow>
          if list_all (matches d) q then (None, c(i \<mapsto> d ++ map_of upd))
          else (Some (ErrDup ''E11000 duplicate key error''), c))"

text \<open>Reading a document into a \<open>Config\<close> (\<open>One(&config)\<close>): a missing field is the zero value.\<close>

definition decodeConfig :: "doc \<Rightarrow> Config" where
  "decodeConfig d =
     \<lparr>ID = (case d ''_id'' of Some (BString s) \<Rightarrow> s | _ \<Rightarrow> []),
      Image = (case d ''image'' of Some (BString s) \<Rightarrow> s | _ \<Rightarrow> []),
      Token = (case d ''token'' of Some (BString s) \<Rightarrow> s | _ \<Rightarrow> []),
      Envs = (case d ''envs'' of Some (BEnvs es) \<Rightarrow> es | _ \<Rightarrow> []),
      Pools = (case d ''pools'' of Some (BPools ps) \<Rightarrow> ps | _ \<Rightarrow> [])\<rparr>"

text \<open>The docker client's \<open>HostConfig\<close> and \<open>CreateContainerOptions\<close>, with the fields the package sets.\<close>

record HostConfig =
  RestartPolicy :: string
  Privileged :: bool
  NetworkMode :: string
  Binds :: "string list"

record CreateContainerOptions =
  Opts_Name :: string
  Opts_HostConfig :: HostConfig
  Opts_Image :: string
  Opts_Env :: "string list"

text \<open>Every call that leaves the package is recorded, with what it returned.\<close>

datatype event =
    DbConn "error option"
  | DbClose
  | DbUpsert string "cond list" "(string \<times> bval) list" "error option"
  | DbFindId string "error option"
  | AuthAppLogin "error + string"
  | AuthLogout string
  | DockerNewClient string "error option"
  | DockerPullImage string string "error + string"
  | DockerCreateContainer string CreateContainerOptions "error + string"
  | DockerRemoveContainer string string bool "error option"
  | DockerStartContainer string string HostConfig "error option"
  | LogDebug string
  | LogError string

text \<open>
  The world: the configuration file, the collection, the answers the outside services
  will give (\<open>script\<close>, one for each call in the order of the calls: an error, or the
  value the call returns), the orders in which the runtime walks a map, and the calls
  made so far. An answer \<open>Inl err\<close> to a storage call is a failure of the storage layer;
  any other answer lets the collection decide. Once the answers are used up, every
  further call succeeds with the empty value.
\<close>

record world =
  settings :: Settings
  bsconfig :: coll
  script :: "(error + string) list"
  rangeEnvMap :: "EnvMap \<Rightarrow> EnvMap"
  rangePoolEnvMap :: "PoolEnvMap \<Rightarrow> PoolEnvMap"
  trace :: "event list"

definition emit :: "event \<Rightarrow> world \<Rightarrow> world" where
  "emit ev w = w\<lparr>trace := trace w @ [ev]\<rparr>"

definition ask :: "world \<Rightarrow> (error + string) \<times> world" where
  "ask w = (case script w of [] \<Rightarrow> (Inr [], w) | a # as \<Rightarrow> (a, w\<lparr>script := as\<rparr>))"

text \<open>\<open>collection()\<close> (lines 237-243): \<open>db.Conn()\<close> fails, or gives the collection.\<close>

definition collection :: "world \<Rightarrow> error option \<times> world" where
  "collection w =
     (case ask w of
        (Inl err, w1) \<Rightarrow> (Some err, emit (DbConn (Some err)) w1)
      | (Inr _, w1) \<Rightarrow> (None, emit (DbConn None) w1))"

definition Close :: "world \<Rightarrow> world" where
  "Close w = emit DbClose w"

text \<open>\<open>coll.Upsert\<close> with the selector \<open>{_id: i, q}\<close> and the update \<open>{$set: upd}\<close>.\<close>

definition Upsert :: "string \<Rightarrow> cond list \<Rightarrow> (string \<times> bval) list \<Rightarrow> world \<Rightarrow> error option \<times> world" where
  "Upsert i q upd w =
     (case ask w of
        (Inl err, w1) \<Rightarrow> (Some err, emit (DbUpsert i q upd (Some err)) w1)
      | (Inr _, w1) \<Rightarrow>
          (case mgoUpsert i q upd (bsconfig w1) of
             (r, c) \<Rightarrow> (r, emit (DbUpsert i q upd r) (w1\<lparr>bsconfig := c\<rparr>))))"

definition UpsertId :: "string \<Rightarrow> (string \<times> bval) list \<Rightarrow> world \<Rightarrow> error option \<times> world" where
  "UpsertId i upd w = Upsert i [] upd w"

text \<open>\<open>coll.FindId(i).One(&c)\<close>.\<close>

definition FindIdOne :: "string \<Rightarrow> world \<Rightarrow> (error + Config) \<times> world" where
  "FindIdOne i w =
     (case ask w of
        (Inl err, w1) \<Rightarrow> (Inl err, emit (DbFindId i (Some err)) w1)
      | (Inr _, w1) \<Rightarrow>
          (case bsconfig w1 i of
             None \<Rightarrow> (Inl ErrNotFound, emit (DbFindId i (Some ErrNotFound)) w1)
           | Some d \<Rightarrow> (Inr (decodeConfig d), emit (DbFindId i None) w1)))"

text \<open>
  \<open>app.AuthScheme.AppLogin(app.InternalAppName)\<close> returns a token or an error;
  \<open>app.AuthScheme.Logout(token)\<close> returns an error that the package drops.
\<close>

definition AppLogin :: "world \<Rightarrow> (error + string) \<times> world" where
  "AppLogin w = (case ask w of (r, w1) \<Rightarrow> (r, emit (AuthAppLogin r) w1))"

definition Logout :: "string \<Rightarrow> world \<Rightarrow> world" where
  "Logout token w = emit (AuthLogout token) w"

text \<open>The docker client: each call returns what the node answers.\<close>

definition answerErr :: "error + string \<Rightarrow> error option" where
  "answerErr a = (case a of Inl err \<Rightarrow> Some err | Inr _ \<Rightarrow> None)"

definition NewClient :: "string \<Rightarrow> world \<Rightarrow> error option \<times> world" where
  "NewClient endpoint w =
     (case ask w of (a, w1) \<Rightarrow> (answerErr a, emit (DockerNewClient endpoint (answerErr a)) w1))"

definition PullImage :: "string \<Rightarrow> string \<Rightarrow> world \<Rightarrow> (error + string) \<times> world" where
  "PullImage endpoint repository w =
     (case ask w of (a, w1) \<Rightarrow> (a, emit (DockerPullImage endpoint repository a) w1))"

definition ClientCreateContainer :: "string \<Rightarrow> CreateContainerOptions \<Rightarrow> world \<Rightarrow> (error + string) \<times> world" where
  "ClientCreateContainer endpoint opts w =
     (case ask w of (a, w1) \<Rightarrow> (a, emit (DockerCreateContainer endpoint opts a) w1))"

definition RemoveContainer :: "string \<Rightarrow> string \<Rightarrow> bool \<Rightarrow> world \<Rightarrow> error option \<times> world" where
  "RemoveContainer endpoint ident force w =
     (case ask w of
        (a, w1) \<Rightarrow> (answerErr a, emit (DockerRemoveContainer endpoint ident force (answerErr a)) w1))"

definition StartContainer :: "string \<Rightarrow> string \<Rightarrow> HostConfig \<Rightarrow> world \<Rightarrow> error option \<times> world" where
  "StartContainer endpoint ident hostConfig w =
     (case ask w of
        (a, w1) \<Rightarrow> (answerErr a, emit (DockerStartContainer endpoint ident hostConfig (answerErr a)) w1))"

subsection \<open>The token\<close>

text \<open>
  The selector of the conditional upsert in \<open>getToken\<close> beside \<open>_id\<close> (line 162):
  \<open>$or: [{token: ""}, {token: {$exists: false}}]\<close>.
\<close>

definition tokenUnset :: "cond list" where
  "tokenUnset = [Or [[FieldEq ''token'' (BString [])], [FieldExists ''token'' False]]]"

text \<open>
  \<open>Config.getToken\<close> (lines 146-177) returns the token or the error, the configuration
  (the method assigns \<open>conf.Token\<close>, and \<open>One(conf)\<close> loads into \<open>conf\<close>), and the world.
  The deferred \<open>coll.Close()\<close> runs at every return after the collection was obtained.
\<close>

definition getToken :: "Config \<Rightarrow> world \<Rightarrow> (error + string) \<times> Config \<times> world" where
  "getToken conf w =
     (if Token conf \<noteq> [] then (Inr (Token conf), conf, w)
      else
        case collection w of
          (Some err, w1) \<Rightarrow> (Inl err, conf, w1)
        | (None, w1) \<Rightarrow>
            (case AppLogin w1 of
               (Inl err, w2) \<Rightarrow> (Inl err, conf, Close w2)
             | (Inr token, w2) \<Rightarrow>
                 (case Upsert bsUniqueID tokenUnset [(''token'', BString token)] w2 of
                    (None, w3) \<Rightarrow> (Inr token, conf\<lparr>Token := token\<rparr>, Close w3)
                  | (Some err, w3) \<Rightarrow>
                      (let w4 = Logout token w3
                       in if \<not> IsDup err then (Inl err, conf, Close w4)
                          else case FindIdOne bsUniqueID w4 of
                                 (Inl err', w5) \<Rightarrow> (Inl err', conf, Close w5)
                               | (Inr loaded, w5) \<Rightarrow> (Inr (Token loaded), loaded, Close w5)))))"

text \<open>The record of that upsert for the token \<open>t\<close>, with what it returned.\<close>

definition tokenUpsert :: "string \<Rightarrow> error option \<Rightarrow> event" where
  "tokenUpsert t r = DbUpsert bsUniqueID tokenUnset [(''token'', BString t)] r"

text \<open>Worlds for the examples: an empty collection, and one whose record holds a token.\<close>

definition emptyWorld :: world where
  "emptyWorld =
     \<lparr>settings = \<lparr>host = ''tsuru.example.com'', docker_bs_image = [], docker_bs_socket = [],
                  docker_bs_syslog_port = 0\<rparr>,
      bsconfig = Map.empty, script = [], rangeEnvMap = rev, rangePoolEnvMap = rev, trace = []\<rparr>"

definition storedWorld :: world where
  "storedWorld =
     emptyWorld\<lparr>bsconfig := [''bs'' \<mapsto> [''_id'' \<mapsto> BString ''bs'', ''image'' \<mapsto> BString ''tsuru/bs@sha256:0a'',
                                        ''token'' \<mapsto> BString ''stored'']]\<rparr>"

definition emptyConfig :: Config where
  "emptyConfig = \<lparr>ID = [], Image = [], Token = [], Envs = [], Pools = []\<rparr>"

subsection \<open>The environment of the container\<close>

text \<open>\<open>SysLogPort\<close> (lines 194-200) and \<open>Config.getImage\<close> (lines 99-108; \<open>None\<close> is the nil receiver).\<close>

definition SysLogPort :: "world \<Rightarrow> int" where
  "SysLogPort w =
     (let bsPort = docker_bs_syslog_port (settings w)
      in if bsPort = 0 then 1514 else bsPort)"

definition getImage :: "Config option \<Rightarrow> world \<Rightarrow> string" where
  "getImage conf w =
     (case conf of
        Some c \<Rightarrow>
          if Image c \<noteq> [] then Image c
          else (let bsImage = docker_bs_image (settings w)
                in if bsImage = [] then ''tsuru/bs'' else bsImage)
      | None \<Rightarrow>
          (let bsImage = docker_bs_image (settings w)
           in if bsImage = [] then ''tsuru/bs'' else bsImage))"

text \<open>\<open>fmt.Sprintf("%s=%s", envName, envValue)\<close>.\<close>

definition formatEnv :: "string \<times> string \<Rightarrow> string" where
  "formatEnv e = fst e @ ''='' @ snd e"

text \<open>
  \<open>Config.EnvListForEndpoint\<close> (lines 110-144): \<open>tsuruEndpointURL\<close> is the value of
  \<open>tsuruEndpoint\<close> (lines 111-115) and \<open>bsEndpoint\<close> that of \<open>endpoint\<close> (lines
  116-120). The method reads \<open>conf\<close> after \<open>getToken\<close>, which may have loaded the
  stored record into it. The two maps start empty; the two
  \<open>range\<close> loops append the entries of \<open>envMap\<close> and of \<open>poolEnvMap[poolName]\<close> (none when
  the pool has no map) in the order the runtime walks them.
\<close>

definition tsuruEndpointURL :: "world \<Rightarrow> string" where
  "tsuruEndpointURL w =
     (let tsuruEndpoint0 = host (settings w);
          tsuruEndpoint1 =
            (if \<not> HasPrefix tsuruEndpoint0 ''http://'' \<and> \<not> HasPrefix tsuruEndpoint0 ''https://''
             then ''http://'' @ tsuruEndpoint0 else tsuruEndpoint0)
      in TrimRight tsuruEndpoint1 ''/'' @ ''/'')"

definition bsEndpoint :: "string \<Rightarrow> world \<Rightarrow> string" where
  "bsEndpoint dockerEndpoint w =
     (let socket = docker_bs_socket (settings w)
      in if socket \<noteq> [] then ''unix:///var/run/docker.sock'' else dockerEndpoint)"

definition EnvListForEndpoint :: "Config \<Rightarrow> string \<Rightarrow> string \<Rightarrow> world \<Rightarrow> (error + string list) \<times> Config \<times> world" where
  "EnvListForEndpoint conf dockerEndpoint poolName w =
     (let tsuruEndpoint = tsuruEndpointURL w;
          endpoint = bsEndpoint dockerEndpoint w
      in case getToken conf w of
           (Inl err, conf1, w1) \<Rightarrow> (Inl err, conf1, w1)
         | (Inr token, conf1, w1) \<Rightarrow>
             (let envList =
                    [''DOCKER_ENDPOINT='' @ endpoint,
                     ''TSURU_ENDPOINT='' @ tsuruEndpoint,
                     ''TSURU_TOKEN='' @ token,
                     ''SYSLOG_LISTEN_ADDRESS=udp://0.0.0.0:'' @ Itoa (SysLogPort w1)]
              in case UpdateEnvMaps conf1 [] [] of
                   (Some err, envMap, poolEnvMap) \<Rightarrow> (Inl err, conf1, w1)
                 | (None, envMap, poolEnvMap) \<Rightarrow>
                     (Inr (envList
                           @ map formatEnv (rangeEnvMap w1 envMap)
                           @ map formatEnv
                               (case map_of poolEnvMap poolName of
                                  None \<Rightarrow> []
                                | Some m \<Rightarrow> rangeEnvMap w1 m)),
                      conf1, w1)))"

text \<open>The variable an entry \<open>NAME=VALUE\<close> of the list sets: what stands before its first \<open>=\<close>.\<close>

definition entryKey :: "string \<Rightarrow> string" where
  "entryKey s = takeWhile (\<lambda>c. c \<noteq> CHR ''='') s"

text \<open>A configuration with a name that begins with a reserved key and \<open>=\<close>.\<close>

definition shadowingConfig :: Config where
  "shadowingConfig =
     \<lparr>ID = ''bs'', Image = [], Token = ''cached'',
      Envs = [\<lparr>Name = ''DOCKER_ENDPOINT=tcp://elsewhere:2375'', Value = ''1''\<rparr>],
      Pools = []\<rparr>"

definition plainConfig :: Config where
  "plainConfig =
     \<lparr>ID = ''bs'', Image = [], Token = ''cached'',
      Envs = [\<lparr>Name = ''LOG_LEVEL'', Value = ''debug''\<rparr>],
      Pools = [\<lparr>Pool_Name = ''p1'', Pool_Envs = [\<lparr>Name = ''METRICS'', Value = ''on''\<rparr>]\<rparr>]\<rparr>"

subsection \<open>Saving and loading the configuration\<close>

text \<open>\<open>bsConfigFromEnvMaps\<close> (lines 179-192), \<open>SaveImage\<close> (202-210), \<open>SaveEnvs\<close> (212-221), \<open>LoadConfig\<close> (223-235).\<close>

definition envOfPair :: "string \<times> string \<Rightarrow> Env" where
  "envOfPair e = \<lparr>Name = fst e, Value = snd e\<rparr>"

definition bsConfigFromEnvMaps :: "EnvMap \<Rightarrow> PoolEnvMap \<Rightarrow> world \<Rightarrow> Config" where
  "bsConfigFromEnvMaps envMap poolEnvMap w =
     \<lparr>ID = [], Image = [], Token = [],
      Envs = map envOfPair (rangeEnvMap w envMap),
      Pools = map (\<lambda>pe. \<lparr>Pool_Name = fst pe, Pool_Envs = map envOfPair (rangeEnvMap w (snd pe))\<rparr>)
                (rangePoolEnvMap w poolEnvMap)\<rparr>"

definition SaveImage :: "string \<Rightarrow> world \<Rightarrow> error option \<times> world" where
  "SaveImage digest w =
     (case collection w of
        (Some err, w1) \<Rightarrow> (Some err, w1)
      | (None, w1) \<Rightarrow>
          (case UpsertId bsUniqueID [(''image'', BString digest)] w1 of
             (err, w2) \<Rightarrow> (err, Close w2)))"

definition SaveEnvs :: "EnvMap \<Rightarrow> PoolEnvMap \<Rightarrow> world \<Rightarrow> error option \<times> world" where
  "SaveEnvs envMap poolEnvMap w =
     (let finalConf = bsConfigFromEnvMaps envMap poolEnvMap w
      in case collection w of
           (Some err, w1) \<Rightarrow> (Some err, w1)
         | (None, w1) \<Rightarrow>
             (case UpsertId bsUniqueID
                     [(''envs'', BEnvs (Envs finalConf)), (''pools'', BPools (Pools finalConf))] w1 of
                (err, w2) \<Rightarrow> (err, Close w2)))"

definition LoadConfig :: "world \<Rightarrow> (error + Config) \<times> world" where
  "LoadConfig w =
     (case collection w of
        (Some err, w1) \<Rightarrow> (Inl err, w1)
      | (None, w1) \<Rightarrow>
          (case FindIdOne bsUniqueID w1 of
             (r, w2) \<Rightarrow> (r, Close w2)))"

text \<open>A field of the singleton record \<open>bs\<close> of the collection, when the record and the field exist.\<close>

definition storedField :: "world \<Rightarrow> string \<Rightarrow> bval option" where
  "storedField w f = (case bsconfig w bsUniqueID of None \<Rightarrow> None | Some d \<Rightarrow> d f)"

subsection \<open>Pulling the image\<close>

text \<open>
  The \<open>DockerProvisioner\<close> (lines 29-32): its registry credentials, and what
  \<open>Cluster().UnfilteredNodes()\<close> returns. A node has an address and metadata.
\<close>

record Node =
  Address :: string
  Metadata :: "string \<rightharpoonup> string"

record DockerProvisioner =
  RegistryAuthConfig :: string
  UnfilteredNodes :: "error + Node list"

text \<open>
  \<open>pullBsImage\<close> (lines 303-321). The answer to \<open>PullImage\<close> is the text the pull wrote
  to the buffer.
\<close>

definition pullBsImage :: "string \<Rightarrow> string \<Rightarrow> DockerProvisioner \<Rightarrow> world \<Rightarrow> error option \<times> world" where
  "pullBsImage img dockerEndpoint p w =
     (case NewClient dockerEndpoint w of
        (Some err, w1) \<Rightarrow> (Some err, w1)
      | (None, w1) \<Rightarrow>
          (case PullImage dockerEndpoint img w1 of
             (Inl err, w2) \<Rightarrow> (Some err, w2)
           | (Inr buf, w2) \<Rightarrow>
               (let img' =
                      (if shouldPinBsImage img
                       then (let match = FindAllStringSubmatch buf 1
                             in if length match > 0 then img @ ''@'' @ (match ! 0) ! 1 else img)
                       else img)
                in SaveImage img' w2)))"

text \<open>A pull output with two digest lines, as a pull of every tag of a repository prints.\<close>

definition twoDigests :: string where
  "twoDigests =
     ''latest: Pulling from tsuru/bs'' @ [CHR 0x0A] @ ''Digest: sha256:aa'' @ [CHR 0x0A]
     @ ''v1: Pulling from tsuru/bs'' @ [CHR 0x0A] @ ''Digest: sha256:bb'' @ [CHR 0x0A]
     @ ''Status: Downloaded newer image for tsuru/bs'' @ [CHR 0x0A]"

definition twoNodes :: "Node list" where
  "twoNodes =
     [\<lparr>Address = ''http://n1:2375'', Metadata = [''pool'' \<mapsto> ''p1'']\<rparr>,
      \<lparr>Address = ''http://n2:2375'', Metadata = Map.empty\<rparr>]"

definition someProvisioner :: DockerProvisioner where
  "someProvisioner = \<lparr>RegistryAuthConfig = [], UnfilteredNodes = Inr twoNodes\<rparr>"

definition unreachableFirst :: world where
  "unreachableFirst = emptyWorld\<lparr>script := [Inl (ErrExternal ''unreachable'')]\<rparr>"

subsection \<open>Creating the container\<close>

text \<open>The end of \<open>CreateContainer\<close> (lines 289-300): create, remove and create again on a relaunch, start.\<close>

definition launch :: "string \<Rightarrow> CreateContainerOptions \<Rightarrow> HostConfig \<Rightarrow> bool \<Rightarrow> world \<Rightarrow> error option \<times> world" where
  "launch dockerEndpoint opts hostConfig relaunch w =
     (case ClientCreateContainer dockerEndpoint opts w of
        (created, w1) \<Rightarrow>
          (if relaunch \<and> created = Inl ErrContainerAlreadyExists
           then (case RemoveContainer dockerEndpoint (Opts_Name opts) True w1 of
                   (Some err, w2) \<Rightarrow> (Some err, w2)
                 | (None, w2) \<Rightarrow>
                     (case ClientCreateContainer dockerEndpoint opts w2 of
                        (Inl err, w3) \<Rightarrow> (Some err, w3)
                      | (Inr ident, w3) \<Rightarrow> StartContainer dockerEndpoint ident hostConfig w3))
           else (case created of
                   Inl err \<Rightarrow> (Some err, w1)
                 | Inr ident \<Rightarrow> StartContainer dockerEndpoint ident hostConfig w1)))"

text \<open>The calls that ask the docker client for a container to be created.\<close>

fun isCreate :: "event \<Rightarrow> bool" where
  "isCreate (DockerCreateContainer _ _ _) = True"
| "isCreate _ = False"

text \<open>
  A run from \<open>w\<close> to \<open>w'\<close> is quiet when it made no such call and left the
  configuration file and the order of map walks as they were.
\<close>

definition quiet :: "world \<Rightarrow> world \<Rightarrow> bool" where
  "quiet w w' \<longleftrightarrow> (\<exists>evs. trace w' = trace w @ evs \<and> (\<forall>e\<in>set evs. \<not> isCreate e))
                 \<and> settings w' = settings w \<and> rangeEnvMap w' = rangeEnvMap w"

text \<open>Lines 263-288 of \<open>CreateContainer\<close>, from the loaded configuration on, then \<open>launch\<close>.\<close>

definition createWith :: "Config \<Rightarrow> string \<Rightarrow> string \<Rightarrow> DockerProvisioner \<Rightarrow> bool \<Rightarrow> world \<Rightarrow> error option \<times> world" where
  "createWith bsConf dockerEndpoint poolName p relaunch w =
     (let bsImage = getImage (Some bsConf) w
      in case pullBsImage bsImage dockerEndpoint p w of
           (Some err, w1) \<Rightarrow> (Some err, w1)
         | (None, w1) \<Rightarrow>
             (let socket = docker_bs_socket (settings w1);
                  hostConfig =
                    \<lparr>RestartPolicy = ''always'', Privileged = True, NetworkMode = ''host'',
                     Binds = (if socket \<noteq> [] then [socket @ '':/var/run/docker.sock:rw''] else [])\<rparr>
              in case EnvListForEndpoint bsConf dockerEndpoint poolName w1 of
                   (Inl err, conf1, w2) \<Rightarrow> (Some err, w2)
                 | (Inr env, conf1, w2) \<Rightarrow>
                     launch dockerEndpoint
                       \<lparr>Opts_Name = ''big-sibling'', Opts_HostConfig = hostConfig,
                        Opts_Image = bsImage, Opts_Env = env\<rparr>
                       hostConfig relaunch w2))"

text \<open>\<open>CreateContainer\<close> (lines 251-301); \<open>emptyConfig\<close> is \<open>&Config{}\<close>.\<close>

definition CreateContainer :: "string \<Rightarrow> string \<Rightarrow> DockerProvisioner \<Rightarrow> bool \<Rightarrow> world \<Rightarrow> error option \<times> world" where
  "CreateContainer dockerEndpoint poolName p relaunch w =
     (case NewClient dockerEndpoint w of
        (Some err, w1) \<Rightarrow> (Some err, w1)
      | (None, w1) \<Rightarrow>
          (case LoadConfig w1 of
             (Inl err, w2) \<Rightarrow>
               if err \<noteq> ErrNotFound then (Some err, w2)
               else createWith emptyConfig dockerEndpoint poolName p relaunch w2
           | (Inr bsConf, w2) \<Rightarrow> createWith bsConf dockerEndpoint poolName p relaunch w2))"

text \<open>
  A node on which the container \<open>big-sibling\<close> exists: the answers of the calls of one
  \<open>CreateContainer\<close>, of which the first creation fails, the removal and the second
  creation succeed.
\<close>

definition busyNode :: world where
  "busyNode =
     storedWorld\<lparr>script :=
       [Inr [], Inr [], Inr [], Inr [], Inr ''Digest: sha256:0a'', Inr [], Inr [],
        Inl ErrContainerAlreadyExists, Inr [], Inr ''c0ffee'', Inr []]\<rparr>"

definition busyOpts :: CreateContainerOptions where
  "busyOpts =
     \<lparr>Opts_Name = ''big-sibling'',
      Opts_HostConfig =
        \<lparr>RestartPolicy = ''always'', Privileged = True, NetworkMode = ''host'', Binds = []\<rparr>,
      Opts_Image = ''tsuru/bs@sha256:0a'',
      Opts_Env =
        [''DOCKER_ENDPOINT=http://n1:2375'', ''TSURU_ENDPOINT=http://tsuru.example.com/'',
         ''TSURU_TOKEN=stored'', ''SYSLOG_LISTEN_ADDRESS=udp://0.0.0.0:1514'']\<rparr>"

definition busyPre :: "event list" where
  "busyPre =
     [DockerNewClient ''http://n1:2375'' None, DbConn None, DbFindId ''bs'' None, DbClose,
      DockerNewClient ''http://n1:2375'' None,
      DockerPullImage ''http://n1:2375'' ''tsuru/bs@sha256:0a'' (Inr ''Digest: sha256:0a''),
      DbConn None, DbUpsert ''bs'' [] [(''image'', BString ''tsuru/bs@sha256:0a'')] None, DbClose]"

subsection \<open>Recreating the containers of the cluster\<close>

text \<open>The two messages of the goroutine of \<open>RecreateContainers\<close> (lines 346 and 349).\<close>

definition recreatingMsg :: "string \<Rightarrow> string \<Rightarrow> string" where
  "recreatingMsg address pool =
     ''[bs containers] recreating container in '' @ address @ '' ['' @ pool @ '']''"

definition failedMsg :: "string \<Rightarrow> string \<Rightarrow> error \<Rightarrow> string" where
  "failedMsg address pool err =
     ''[bs containers] failed to create container in '' @ address @ '' ['' @ pool @ '']: '' @ Error err"

text \<open>
  The body of the goroutine of \<open>RecreateContainers\<close> for the node of index \<open>i\<close> (lines
  343-353). It returns what \<open>CreateContainer\<close> returned and the channel after its send.
\<close>

definition worker :: "DockerProvisioner \<Rightarrow> Node list \<Rightarrow> nat \<Rightarrow> error list \<Rightarrow> world \<Rightarrow> error option \<times> error list \<times> world" where
  "worker p nodes i errChan w =
     (let node = nodes ! i;
          pool = (case Metadata node ''pool'' of None \<Rightarrow> [] | Some v \<Rightarrow> v);
          w1 = emit (LogDebug (recreatingMsg (Address node) pool)) w
      in case CreateContainer (Address node) pool p True w1 of
           (None, w2) \<Rightarrow> (None, errChan, w2)
         | (Some err, w2) \<Rightarrow>
             (let msg = failedMsg (Address node) pool err
              in (Some err, errChan @ [Errorf msg], emit (LogError msg) w2)))"

text \<open>
  The goroutines, one for each index, run in the order \<open>sched\<close> the scheduler chooses,
  each one to its end before the next (their calls are not interleaved in this model).
  The loop of lines 340-355 starts one goroutine for each index of \<open>nodes\<close>, so \<open>sched\<close>
  is a permutation of these indices. The result lists what each \<open>CreateContainer\<close>
  returned.
\<close>

fun runWorkers :: "DockerProvisioner \<Rightarrow> Node list \<Rightarrow> nat list \<Rightarrow> error list \<Rightarrow> world \<Rightarrow> error option list \<times> error list \<times> world" where
  "runWorkers p nodes [] errChan w = ([], errChan, w)"
| "runWorkers p nodes (i # sched) errChan w =
     (case worker p nodes i errChan w of
        (r, errChan1, w1) \<Rightarrow>
          (case runWorkers p nodes sched errChan1 w1 of
             (rs, errChan2, w2) \<Rightarrow> (r # rs, errChan2, w2)))"

text \<open>
  \<open>RecreateContainers\<close> (lines 331-359). The channel holds as many errors as there are
  nodes, so no send blocks; after \<open>wg.Wait()\<close> and \<open>close\<close>, the receive takes the first
  error sent, or nil from the empty closed channel.
\<close>

definition recreatingAllMsg :: "nat \<Rightarrow> string" where
  "recreatingAllMsg n = ''[bs containers] recreating '' @ Itoa (int n) @ '' containers''"

definition RecreateContainers :: "DockerProvisioner \<Rightarrow> nat list \<Rightarrow> world \<Rightarrow> error option \<times> world" where
  "RecreateContainers p sched w =
     (case UnfilteredNodes p of
        Inl err \<Rightarrow> (Some err, w)
      | Inr nodes \<Rightarrow>
          (let w1 = emit (LogDebug (recreatingAllMsg (length nodes))) w
           in case runWorkers p nodes sched [] w1 of
                (rs, errChan, w2) \<Rightarrow>
                  (case errChan of [] \<Rightarrow> (None, w2) | err # _ \<Rightarrow> (Some err, w2))))"

text \<open>
  For the statement of what a run does: the pool of a node (line 345), the world in
  which a goroutine calls \<open>CreateContainer\<close> (after the message of line 346), and the
  world it leaves (after the message of line 350 when \<open>CreateContainer\<close> failed).
\<close>

definition nodePool :: "Node \<Rightarrow> string" where
  "nodePool node = (case Metadata node ''pool'' of None \<Rightarrow> [] | Some v \<Rightarrow> v)"

definition taskStart :: "Node \<Rightarrow> world \<Rightarrow> world" where
  "taskStart node w = emit (LogDebug (recreatingMsg (Address node) (nodePool node))) w"

definition taskEnd :: "Node \<Rightarrow> error option \<Rightarrow> world \<Rightarrow> world" where
  "taskEnd node r w =
     (case r of
        None \<Rightarrow> w
      | Some err \<Rightarrow> emit (LogError (failedMsg (Address node) (nodePool node) err)) w)"

text \<open>What a goroutine sends to the channel: nothing, or the error with the message of line 349.\<close>

definition sent :: "Node list \<Rightarrow> nat \<times> error option \<Rightarrow> error list" where
  "sent nodes ir =
     (case snd ir of
        None \<Rightarrow> []
      | Some err \<Rightarrow>
          [Errorf (failedMsg (Address (nodes ! fst ir)) (nodePool (nodes ! fst ir)) err)])"

section \<open>Properties\<close>

subsection \<open>Splitting and pinning\<close>

lemma SplitN_nonempty: "SplitN s c (Suc n) \<noteq> []"
  by (cases n) auto

lemma SplitN_two: "length (SplitN s c 2) < 2 \<longleftrightarrow> c \<notin> set s"
  by (simp add: numeral_2_eq_2)

lemma shouldPinBsImage_last:
  "shouldPinBsImage img \<longleftrightarrow> CHR '':'' \<notin> set (last (SplitN img (CHR ''/'') 3))"
proof -
  have "SplitN img (CHR ''/'') 3 \<noteq> []"
    using SplitN_nonempty [of img "CHR ''/''" 2] by (simp add: numeral_3_eq_3)
  then show ?thesis
    by (simp add: shouldPinBsImage_def Let_def SplitN_two last_conv_nth)
qed

lemma split_at_first:
  assumes "c \<in> set s"
  shows "s = takeWhile (\<lambda>x. x \<noteq> c) s @ c # tl (dropWhile (\<lambda>x. x \<noteq> c) s)"
proof -
  have ne: "dropWhile (\<lambda>x. x \<noteq> c) s \<noteq> []"
    using assms by auto
  then have "hd (dropWhile (\<lambda>x. x \<noteq> c) s) = c"
    using hd_dropWhile [of "\<lambda>x. x \<noteq> c" s] by auto
  with ne have "dropWhile (\<lambda>x. x \<noteq> c) s = c # tl (dropWhile (\<lambda>x. x \<noteq> c) s)"
    by (metis list.collapse)
  then show ?thesis by (metis takeWhile_dropWhile_id)
qed

lemma trailing_after_sep:
  "rev (takeWhile (\<lambda>x. x \<noteq> c) (rev (a @ c # r))) = rev (takeWhile (\<lambda>x. x \<noteq> c) (rev r))"
  by (simp add: takeWhile_tail)

lemma trailing_no_sep:
  assumes "c \<notin> set s"
  shows "rev (takeWhile (\<lambda>x. x \<noteq> c) (rev s)) = s"
proof -
  have "\<forall>x\<in>set (rev s). x \<noteq> c" using assms by auto
  then have "takeWhile (\<lambda>x. x \<noteq> c) (rev s) = rev s"
    by (simp only: takeWhile_eq_all_conv)
  then show ?thesis by (simp only: rev_rev_ident)
qed

lemma pathSegments_nonempty: "pathSegments s \<noteq> []"
  by (induction s) (auto split: list.splits)

lemma pathSegments_no_sep: "CHR ''/'' \<notin> set s \<Longrightarrow> pathSegments s = [s]"
  by (induction s) auto

lemma pathSegments_sep:
  "CHR ''/'' \<notin> set a \<Longrightarrow> pathSegments (a @ CHR ''/'' # r) = a # pathSegments r"
  by (induction a) auto

lemma pathSegments_mem:
  "d \<noteq> CHR ''/'' \<Longrightarrow> d \<in> set s \<longleftrightarrow> (\<exists>seg\<in>set (pathSegments s). d \<in> set seg)"
proof (induction s)
  case Nil
  show ?case by simp
next
  case (Cons c cs)
  obtain seg segs where p: "pathSegments cs = seg # segs"
    using pathSegments_nonempty [of cs] by (cases "pathSegments cs") auto
  show ?case using Cons p by auto
qed

lemma pathSegments_last:
  "last (pathSegments s) = rev (takeWhile (\<lambda>x. x \<noteq> CHR ''/'') (rev s))"
proof (induction s rule: length_induct)
  case (1 s)
  show ?case
  proof (cases "CHR ''/'' \<in> set s")
    case False
    then show ?thesis by (simp add: pathSegments_no_sep trailing_no_sep)
  next
    case True
    define a where "a = takeWhile (\<lambda>x. x \<noteq> CHR ''/'') s"
    define r where "r = tl (dropWhile (\<lambda>x. x \<noteq> CHR ''/'') s)"
    have s: "s = a @ CHR ''/'' # r" unfolding a_def r_def by (rule split_at_first [OF True])
    have a: "CHR ''/'' \<notin> set a" unfolding a_def by (auto dest: set_takeWhileD)
    have "length r < length s" using s by simp
    with 1 have "last (pathSegments r) = rev (takeWhile (\<lambda>x. x \<noteq> CHR ''/'') (rev r))"
      by blast
    moreover have "pathSegments s = a # pathSegments r"
      using pathSegments_sep [OF a, of r] s by simp
    moreover have "rev (takeWhile (\<lambda>x. x \<noteq> CHR ''/'') (rev s))
                   = rev (takeWhile (\<lambda>x. x \<noteq> CHR ''/'') (rev r))"
      using trailing_after_sep [of "CHR ''/''" a r] s by simp
    ultimately show ?thesis using pathSegments_nonempty [of r] by simp
  qed
qed

lemma set_butlast_last: "xs \<noteq> [] \<Longrightarrow> set xs = set (butlast xs) \<union> {last xs}"
proof -
  assume "xs \<noteq> []"
  then have "set xs = set (butlast xs @ [last xs])" by simp
  then show ?thesis by (simp only: set_append list.set) 
qed

text \<open>
  A character other than \<open>/\<close> stands in the last of \<open>n + 1\<close> parts exactly when it
  stands in the trailing segment or in a segment from the \<open>n + 1\<close>-th on.
\<close>

lemma SplitN_last_mem:
  "d \<noteq> CHR ''/'' \<Longrightarrow>
   d \<in> set (last (SplitN s (CHR ''/'') (Suc n)))
   \<longleftrightarrow> d \<in> set (rev (takeWhile (\<lambda>x. x \<noteq> CHR ''/'') (rev s)))
        \<or> (\<exists>seg\<in>set (butlast (drop n (pathSegments s))). d \<in> set seg)"
proof (induction n arbitrary: s)
  case 0
  have "set (pathSegments s) = set (butlast (pathSegments s)) \<union> {last (pathSegments s)}"
    by (rule set_butlast_last [OF pathSegments_nonempty])
  then have "(\<exists>seg\<in>set (pathSegments s). d \<in> set seg)
             \<longleftrightarrow> d \<in> set (last (pathSegments s))
                  \<or> (\<exists>seg\<in>set (butlast (pathSegments s)). d \<in> set seg)"
    by auto
  then show ?case
    using pathSegments_mem [OF 0, of s] by (simp add: pathSegments_last)
next
  case (Suc n)
  show ?case
  proof (cases "CHR ''/'' \<in> set s")
    case False
    then show ?thesis by (simp add: trailing_no_sep pathSegments_no_sep)
  next
    case True
    define a where "a = takeWhile (\<lambda>x. x \<noteq> CHR ''/'') s"
    define r where "r = tl (dropWhile (\<lambda>x. x \<noteq> CHR ''/'') s)"
    have s: "s = a @ CHR ''/'' # r" unfolding a_def r_def by (rule split_at_first [OF True])
    have a: "CHR ''/'' \<notin> set a" unfolding a_def by (auto dest: set_takeWhileD)
    have split: "SplitN s (CHR ''/'') (Suc (Suc n)) = a # SplitN r (CHR ''/'') (Suc n)"
      using True by (simp add: a_def r_def)
    have segs: "pathSegments s = a # pathSegments r"
      using pathSegments_sep [OF a, of r] s by simp
    have trail: "rev (takeWhile (\<lambda>x. x \<noteq> CHR ''/'') (rev s))
                 = rev (takeWhile (\<lambda>x. x \<noteq> CHR ''/'') (rev r))"
      using trailing_after_sep [of "CHR ''/''" a r] s by simp
    have lhs: "last (SplitN s (CHR ''/'') (Suc (Suc n))) = last (SplitN r (CHR ''/'') (Suc n))"
      by (simp only: split last_ConsR [OF SplitN_nonempty])
    have rest: "drop (Suc n) (pathSegments s) = drop n (pathSegments r)"
      by (simp only: segs drop_Suc_Cons)
    show ?thesis
      unfolding lhs rest trail by (rule Suc.IH [OF Suc.prems])
  qed
qed

lemma shouldPinBsImage_segments:
  "shouldPinBsImage img \<longleftrightarrow> pinnedByTrailingSegment img \<and> middleWithoutColon img"
proof -
  have "CHR '':'' \<in> set (last (SplitN img (CHR ''/'') (Suc 2)))
        \<longleftrightarrow> CHR '':'' \<in> set (rev (takeWhile (\<lambda>x. x \<noteq> CHR ''/'') (rev img)))
             \<or> (\<exists>seg\<in>set (butlast (drop 2 (pathSegments img))). CHR '':'' \<in> set seg)"
    by (rule SplitN_last_mem) simp
  moreover have "Suc 2 = 3" by simp
  ultimately have "CHR '':'' \<in> set (last (SplitN img (CHR ''/'') 3))
        \<longleftrightarrow> CHR '':'' \<in> set (rev (takeWhile (\<lambda>x. x \<noteq> CHR ''/'') (rev img)))
             \<or> (\<exists>seg\<in>set (butlast (drop 2 (pathSegments img))). CHR '':'' \<in> set seg)"
    by (simp only:)
  then show ?thesis
    unfolding shouldPinBsImage_last pinnedByTrailingSegment_def trailingSegment_def
      middleWithoutColon_def list_all_iff
    by blast
qed

lemma pathSegments_length: "length (pathSegments s) = Suc (count_list s (CHR ''/''))"
proof (induction s)
  case Nil
  show ?case by simp
next
  case (Cons c cs)
  obtain seg segs where p: "pathSegments cs = seg # segs"
    using pathSegments_nonempty [of cs] by (cases "pathSegments cs") auto
  show ?case using Cons p by auto
qed

lemma few_segments_middle:
  "count_list img (CHR ''/'') \<le> 2 \<Longrightarrow> middleWithoutColon img"
proof -
  assume "count_list img (CHR ''/'') \<le> 2"
  then have "length (drop 2 (pathSegments img)) \<le> 1"
    by (simp add: pathSegments_length)
  then have "butlast (drop 2 (pathSegments img)) = []"
    by (cases "drop 2 (pathSegments img)") auto
  then show ?thesis by (simp add: middleWithoutColon_def)
qed

text \<open>
  C5. For every image reference, \<open>shouldPinBsImage\<close> decides by whether the trailing
  path segment, what follows the last \<open>/\<close>, contains no \<open>:\<close>. The references are the
  strings with no \<open>:\<close> in a segment from the third on other than the last, which are
  all the strings with at most two \<open>/\<close> and every string whose \<open>:\<close> stand in the
  registry part or in the last segment, such as \<open>registry:5000/org/team/image\<close>. For
  every string whatever, the code pins exactly when the trailing segment and those
  middle segments contain no \<open>:\<close>: it reads the last of the at most three parts that
  \<open>SplitN(image, "/", 3)\<close> gives. \<open>repo/image\<close> is pinned, \<open>repo/image:1.0\<close> is not,
  and \<open>registry:5000/repo/image\<close> is pinned.
\<close>

theorem shouldPinBsImage_trailing_segment:
  "(middleWithoutColon img \<longrightarrow> (shouldPinBsImage img \<longleftrightarrow> pinnedByTrailingSegment img))
   \<and> (shouldPinBsImage img \<longleftrightarrow> pinnedByTrailingSegment img \<and> middleWithoutColon img)
   \<and> (count_list img (CHR ''/'') \<le> 2 \<longrightarrow> middleWithoutColon img)
   \<and> (shouldPinBsImage img \<longleftrightarrow> CHR '':'' \<notin> set (last (SplitN img (CHR ''/'') 3)))
   \<and> shouldPinBsImage ''repo/image''
   \<and> \<not> shouldPinBsImage ''repo/image:1.0''
   \<and> shouldPinBsImage ''registry:5000/repo/image''"
proof -
  have a: "shouldPinBsImage img \<longleftrightarrow> pinnedByTrailingSegment img \<and> middleWithoutColon img"
    by (rule shouldPinBsImage_segments)
  have b: "count_list img (CHR ''/'') \<le> 2 \<longrightarrow> middleWithoutColon img"
    by (simp add: few_segments_middle)
  have c: "shouldPinBsImage img \<longleftrightarrow> CHR '':'' \<notin> set (last (SplitN img (CHR ''/'') 3))"
    by (rule shouldPinBsImage_last)
  have d: "shouldPinBsImage ''repo/image''" by code_simp
  have e: "\<not> shouldPinBsImage ''repo/image:1.0''" by code_simp
  have f: "shouldPinBsImage ''registry:5000/repo/image''" by code_simp
  from a b c d e f show ?thesis by blast
qed

text \<open>
  A reference with a registry port and four segments, untagged and tagged: the \<open>:\<close> of
  the port does not count, that of the tag does.
\<close>

theorem shouldPinBsImage_trailing_segment_witness:
  "middleWithoutColon ''registry:5000/org/team/image''
   \<and> pinnedByTrailingSegment ''registry:5000/org/team/image''
   \<and> shouldPinBsImage ''registry:5000/org/team/image''
   \<and> middleWithoutColon ''registry:5000/org/team/image:1.0''
   \<and> \<not> pinnedByTrailingSegment ''registry:5000/org/team/image:1.0''
   \<and> \<not> shouldPinBsImage ''registry:5000/org/team/image:1.0''"
proof -
  have h1: "middleWithoutColon ''registry:5000/org/team/image''" by code_simp
  have p1: "pinnedByTrailingSegment ''registry:5000/org/team/image''" by code_simp
  have h2: "middleWithoutColon ''registry:5000/org/team/image:1.0''" by code_simp
  have p2: "\<not> pinnedByTrailingSegment ''registry:5000/org/team/image:1.0''" by code_simp
  show ?thesis
    using h1 p1 h2 p2
      shouldPinBsImage_trailing_segment [of "''registry:5000/org/team/image''"]
      shouldPinBsImage_trailing_segment [of "''registry:5000/org/team/image:1.0''"]
    by blast
qed

subsection \<open>Merging a patch into the environment maps\<close>

lemma find_app:
  "find P (xs @ ys) = (case find P xs of None \<Rightarrow> find P ys | Some x \<Rightarrow> Some x)"
  by (induction xs) auto

lemma updateEnvs_error:
  "fst (updateEnvs es m) =
     (case find forbiddenList (map Name es) of
        None \<Rightarrow> None
      | Some k \<Rightarrow> Some (Errorf (''cannot set '' @ k @ '' variable'')))"
  by (induction es arbitrary: m) auto

lemma updateEnvs_before:
  "snd (updateEnvs es m) = snd (updateEnvs (takeWhile (\<lambda>e. \<not> forbiddenList (Name e)) es) m)"
  by (induction es arbitrary: m) auto

lemma find_forbidden_None:
  "find forbiddenList (map Name es) = None \<longleftrightarrow> (\<forall>e\<in>set es. \<not> forbiddenList (Name e))"
  by (induction es) auto

lemma entryEffect_append:
  "entryEffect (xs @ ys) k old = entryEffect ys k (entryEffect xs k old)"
  by (simp add: entryEffect_def lastEntry_def find_app split: option.splits)

lemma entryEffect_Cons:
  "entryEffect (e # es) k old = entryEffect es k (entryEffect [e] k old)"
  using entryEffect_append [of "[e]" es k old] by simp

lemma entryEffect_single:
  "entryEffect [e] k old = (if Name e = k then (if Value e = [] then None else Some (Value e)) else old)"
  by (simp add: entryEffect_def lastEntry_def)

lemma entryEffect_Nil: "entryEffect [] k old = old"
  by (simp add: entryEffect_def lastEntry_def)

lemma updateEnvs_effect:
  "\<forall>e\<in>set es. \<not> forbiddenList (Name e) \<Longrightarrow>
   map_of (snd (updateEnvs es m)) k = entryEffect es k (map_of m k)"
proof (induction es arbitrary: m)
  case Nil
  show ?case by (simp add: entryEffect_Nil)
next
  case (Cons e es)
  then have rest: "\<forall>x\<in>set es. \<not> forbiddenList (Name x)" and ok: "\<not> forbiddenList (Name e)"
    by auto
  show ?case
    using Cons.IH [OF rest] ok
    by (simp add: entryEffect_Cons [of e es] entryEffect_single update_conv' delete_conv')
qed

lemma updatePools_error:
  "fst (updatePools ps pm) =
     (case find forbiddenList (concat (map (\<lambda>p. map Name (Pool_Envs p)) ps)) of
        None \<Rightarrow> None
      | Some k \<Rightarrow> Some (Errorf (''cannot set '' @ k @ '' variable'')))"
proof (induction ps arbitrary: pm)
  case Nil
  show ?case by simp
next
  case (Cons p ps)
  show ?case
    using updateEnvs_error [of "Pool_Envs p" "case map_of pm (Pool_Name p) of None \<Rightarrow> [] | Some m \<Rightarrow> m"]
    by (auto simp: Let_def find_app Cons.IH split: prod.splits option.splits)
qed

lemma updateEnvs_ok:
  "\<forall>e\<in>set es. \<not> forbiddenList (Name e) \<Longrightarrow> fst (updateEnvs es m) = None"
  by (simp add: updateEnvs_error find_forbidden_None [THEN iffD2])

lemma updateEnvs_fails:
  "\<exists>e\<in>set es. forbiddenList (Name e) \<Longrightarrow> fst (updateEnvs es m) \<noteq> None"
  using find_forbidden_None [of es] by (auto simp: updateEnvs_error split: option.splits)

lemma updateEnvs_takeWhile_ok:
  "fst (updateEnvs (takeWhile (\<lambda>e. \<not> forbiddenList (Name e)) es) m) = None"
  by (rule updateEnvs_ok) (auto dest: set_takeWhileD)

lemma updatePools_before:
  "snd (updatePools ps pm) = snd (updatePools (poolsBefore ps) pm)"
proof (induction ps arbitrary: pm)
  case Nil
  show ?case by simp
next
  case (Cons p ps)
  define created where "created = (case map_of pm (Pool_Name p) of None \<Rightarrow> [] | Some m \<Rightarrow> m)"
  define es' where "es' = takeWhile (\<lambda>e. \<not> forbiddenList (Name e)) (Pool_Envs p)"
  obtain r m where run: "updateEnvs (Pool_Envs p) created = (r, m)" by force
  obtain r' m' where run': "updateEnvs es' created = (r', m')" by force
  have "m' = m" using updateEnvs_before [of "Pool_Envs p" created] run run'
    by (simp add: es'_def)
  moreover have "r' = None" using updateEnvs_takeWhile_ok [of "Pool_Envs p" created] run'
    by (simp add: es'_def)
  ultimately have run'': "updateEnvs es' created = (None, m)" using run' by simp
  show ?case
  proof (cases "\<exists>e\<in>set (Pool_Envs p). forbiddenList (Name e)")
    case True
    then have "r \<noteq> None" using updateEnvs_fails [of "Pool_Envs p" created] run by simp
    then obtain err where "r = Some err" by auto
    with run run'' True show ?thesis
      by (simp add: created_def [symmetric] es'_def [symmetric])
  next
    case False
    then have "r = None" using updateEnvs_ok [of "Pool_Envs p" created] run by simp
    with run False Cons.IH show ?thesis
      by (simp add: created_def [symmetric])
  qed
qed

lemma poolLookup_update:
  "poolLookup (AList.update n m pm) p k = (if p = n then map_of m k else poolLookup pm p k)"
  by (simp add: poolLookup_def update_conv')

lemma poolEntries_Cons:
  "poolEntries (q # ps) p = (if Pool_Name q = p then Pool_Envs q @ poolEntries ps p else poolEntries ps p)"
  by (simp add: poolEntries_def)

lemma updatePools_effect:
  "\<forall>q\<in>set ps. \<forall>e\<in>set (Pool_Envs q). \<not> forbiddenList (Name e) \<Longrightarrow>
   poolLookup (snd (updatePools ps pm)) p k = entryEffect (poolEntries ps p) k (poolLookup pm p k)"
proof (induction ps arbitrary: pm)
  case Nil
  show ?case by (simp add: poolEntries_def entryEffect_Nil)
next
  case (Cons q ps)
  define created where "created = (case map_of pm (Pool_Name q) of None \<Rightarrow> [] | Some m \<Rightarrow> m)"
  have okq: "\<forall>e\<in>set (Pool_Envs q). \<not> forbiddenList (Name e)"
    and rest: "\<forall>q\<in>set ps. \<forall>e\<in>set (Pool_Envs q). \<not> forbiddenList (Name e)"
    using Cons.prems by auto
  obtain r m where run: "updateEnvs (Pool_Envs q) created = (r, m)" by force
  have r: "r = None" using updateEnvs_ok [OF okq, of created] run by simp
  have m: "map_of m k = entryEffect (Pool_Envs q) k (map_of created k)"
    using updateEnvs_effect [OF okq, of created k] run by simp
  have created: "map_of created k = poolLookup pm (Pool_Name q) k"
    by (simp add: created_def poolLookup_def split: option.splits)
  have "poolLookup (snd (updatePools (q # ps) pm)) p k
        = poolLookup (snd (updatePools ps (AList.update (Pool_Name q) m pm))) p k"
    using run r by (simp add: created_def [symmetric])
  also have "\<dots> = entryEffect (poolEntries ps p) k (poolLookup (AList.update (Pool_Name q) m pm) p k)"
    by (rule Cons.IH [OF rest])
  also have "\<dots> = entryEffect (poolEntries (q # ps) p) k (poolLookup pm p k)"
    by (simp add: poolLookup_update poolEntries_Cons m created entryEffect_append)
  finally show ?case .
qed

lemma updatePools_created:
  "(map_of (snd (updatePools ps pm)) p = None) \<longleftrightarrow>
   (map_of (snd (updatePools ([]::PoolEnvs list) pm)) p = None \<and> p \<notin> Pool_Name ` set (poolsBefore ps))"
proof (induction ps arbitrary: pm)
  case Nil
  show ?case by simp
next
  case (Cons q ps)
  define created where "created = (case map_of pm (Pool_Name q) of None \<Rightarrow> [] | Some m \<Rightarrow> m)"
  obtain r m where run: "updateEnvs (Pool_Envs q) created = (r, m)" by force
  show ?case
  proof (cases "\<exists>e\<in>set (Pool_Envs q). forbiddenList (Name e)")
    case True
    then have "r \<noteq> None" using updateEnvs_fails [of "Pool_Envs q" created] run by simp
    then obtain err where "r = Some err" by auto
    with run True show ?thesis
      by (auto simp: created_def [symmetric] update_conv')
  next
    case False
    then have "r = None" using updateEnvs_ok [of "Pool_Envs q" created] run by simp
    with run False Cons.IH [of "AList.update (Pool_Name q) m pm"] show ?thesis
      by (auto simp: created_def [symmetric] update_conv')
  qed
qed

lemma UpdateEnvMaps_error:
  "fst (UpdateEnvMaps conf em pm) =
     (case find forbiddenList (patchNames conf) of
        None \<Rightarrow> None
      | Some k \<Rightarrow> Some (Errorf (''cannot set '' @ k @ '' variable'')))"
  using updateEnvs_error [of "Envs conf" em] updatePools_error [of "Pools conf" pm]
  by (auto simp: UpdateEnvMaps_def patchNames_def find_app split: prod.splits option.splits)

lemma takeWhile_all_ok:
  "\<forall>e\<in>set es. \<not> forbiddenList (Name e) \<Longrightarrow> takeWhile (\<lambda>e. \<not> forbiddenList (Name e)) es = es"
  by (induction es) auto

lemma UpdateEnvMaps_before:
  "snd (UpdateEnvMaps conf em pm) = snd (UpdateEnvMaps (beforeForbidden conf) em pm)"
proof -
  define es' where "es' = takeWhile (\<lambda>e. \<not> forbiddenList (Name e)) (Envs conf)"
  obtain r m where run: "updateEnvs (Envs conf) em = (r, m)" by force
  obtain r' m' where run': "updateEnvs es' em = (r', m')" by force
  have "m' = m" using updateEnvs_before [of "Envs conf" em] run run' by (simp add: es'_def)
  moreover have "r' = None" using updateEnvs_takeWhile_ok [of "Envs conf" em] run'
    by (simp add: es'_def)
  ultimately have run'': "updateEnvs es' em = (None, m)" using run' by simp
  show ?thesis
  proof (cases "\<exists>e\<in>set (Envs conf). forbiddenList (Name e)")
    case True
    then have "r \<noteq> None" using updateEnvs_fails [of "Envs conf" em] run by simp
    then obtain err where "r = Some err" by auto
    with run run'' True show ?thesis
      by (simp add: UpdateEnvMaps_def beforeForbidden_def es'_def [symmetric])
  next
    case False
    then have "r = None" using updateEnvs_ok [of "Envs conf" em] run by simp
    moreover have "es' = Envs conf" unfolding es'_def using False by (simp add: takeWhile_all_ok)
    ultimately show ?thesis
      using run False updatePools_before [of "Pools conf" pm]
      by (auto simp: UpdateEnvMaps_def beforeForbidden_def es'_def [symmetric] split: prod.splits)
  qed
qed

lemma names_stop:
  "\<exists>e\<in>set es. forbiddenList (Name e) \<Longrightarrow>
   takeWhile (\<lambda>k. \<not> forbiddenList k) (map Name es @ rest)
   = map Name (takeWhile (\<lambda>e. \<not> forbiddenList (Name e)) es)"
  by (induction es) auto

lemma names_pass:
  "\<forall>e\<in>set es. \<not> forbiddenList (Name e) \<Longrightarrow>
   takeWhile (\<lambda>k. \<not> forbiddenList k) (map Name es @ rest)
   = map Name es @ takeWhile (\<lambda>k. \<not> forbiddenList k) rest"
  by (induction es) auto

lemma poolsBefore_names:
  "concat (map (\<lambda>p. map Name (Pool_Envs p)) (poolsBefore ps))
   = takeWhile (\<lambda>k. \<not> forbiddenList k) (concat (map (\<lambda>p. map Name (Pool_Envs p)) ps))"
proof (induction ps)
  case Nil
  show ?case by simp
next
  case (Cons p ps)
  show ?case
  proof (cases "\<exists>e\<in>set (Pool_Envs p). forbiddenList (Name e)")
    case True
    then show ?thesis by (simp add: names_stop)
  next
    case False
    then show ?thesis using Cons.IH by (simp add: names_pass)
  qed
qed

lemma beforeForbidden_names:
  "patchNames (beforeForbidden conf) = takeWhile (\<lambda>k. \<not> forbiddenList k) (patchNames conf)"
proof (cases "\<exists>e\<in>set (Envs conf). forbiddenList (Name e)")
  case True
  then show ?thesis
    by (simp add: patchNames_def beforeForbidden_def names_stop)
next
  case False
  then show ?thesis
    using poolsBefore_names [of "Pools conf"]
    by (simp add: patchNames_def beforeForbidden_def names_pass takeWhile_all_ok)
qed


lemma poolsBefore_ok:
  "\<forall>q\<in>set (poolsBefore ps). \<forall>e\<in>set (Pool_Envs q). \<not> forbiddenList (Name e)"
  by (induction ps) (auto dest: set_takeWhileD)

lemma poolsBefore_all_ok:
  "\<forall>q\<in>set ps. \<forall>e\<in>set (Pool_Envs q). \<not> forbiddenList (Name e) \<Longrightarrow> poolsBefore ps = ps"
  by (induction ps) auto

lemma beforeForbidden_ok:
  "(\<forall>e\<in>set (Envs (beforeForbidden conf)). \<not> forbiddenList (Name e))
   \<and> (\<forall>q\<in>set (Pools (beforeForbidden conf)). \<forall>e\<in>set (Pool_Envs q). \<not> forbiddenList (Name e))"
  using poolsBefore_ok [of "Pools conf"]
  by (auto simp: beforeForbidden_def dest: set_takeWhileD)

lemma beforeForbidden_id:
  assumes "\<forall>k\<in>set (patchNames conf). \<not> forbiddenList k"
  shows "beforeForbidden conf = conf"
proof -
  have g: "\<forall>e\<in>set (Envs conf). \<not> forbiddenList (Name e)"
    using assms by (auto simp: patchNames_def)
  have p: "\<forall>q\<in>set (Pools conf). \<forall>e\<in>set (Pool_Envs q). \<not> forbiddenList (Name e)"
    using assms by (auto simp: patchNames_def)
  show ?thesis
    using g by (simp add: beforeForbidden_def takeWhile_all_ok [OF g] poolsBefore_all_ok [OF p])
qed

text \<open>What a call leaves in the maps is what the entries before the first forbidden one make of them.\<close>

lemma UpdateEnvMaps_ok:
  assumes g: "\<forall>e\<in>set (Envs conf). \<not> forbiddenList (Name e)"
    and p: "\<forall>q\<in>set (Pools conf). \<forall>e\<in>set (Pool_Envs q). \<not> forbiddenList (Name e)"
  shows "UpdateEnvMaps conf em pm = (None, snd (updateEnvs (Envs conf) em), snd (updatePools (Pools conf) pm))"
proof -
  have "find forbiddenList (concat (map (\<lambda>p. map Name (Pool_Envs p)) (Pools conf))) = None"
    using p by (auto simp: find_None_iff)
  then have "fst (updatePools (Pools conf) pm) = None"
    by (simp add: updatePools_error)
  then show ?thesis
    using updateEnvs_ok [OF g, of em]
    by (auto simp: UpdateEnvMaps_def split: prod.splits option.splits)
qed

lemma UpdateEnvMaps_maps:
  "snd (UpdateEnvMaps conf em pm)
   = (snd (updateEnvs (Envs (beforeForbidden conf)) em),
      snd (updatePools (Pools (beforeForbidden conf)) pm))"
  using beforeForbidden_ok [of conf] UpdateEnvMaps_before [of conf em pm]
  by (simp add: UpdateEnvMaps_ok)

lemma UpdateEnvMaps_global_effect:
  "map_of (fst (snd (UpdateEnvMaps conf em pm))) k
   = entryEffect (Envs (beforeForbidden conf)) k (map_of em k)"
  using beforeForbidden_ok [of conf] by (simp add: UpdateEnvMaps_maps updateEnvs_effect)

lemma UpdateEnvMaps_pool_effect:
  "poolLookup (snd (snd (UpdateEnvMaps conf em pm))) pool k
   = entryEffect (poolEntries (Pools (beforeForbidden conf)) pool) k (poolLookup pm pool k)"
  using beforeForbidden_ok [of conf] by (simp add: UpdateEnvMaps_maps updatePools_effect)

lemma UpdateEnvMaps_pool_created:
  "(map_of (snd (snd (UpdateEnvMaps conf em pm))) pool = None)
   \<longleftrightarrow> (map_of pm pool = None \<and> pool \<notin> Pool_Name ` set (Pools (beforeForbidden conf)))"
proof -
  have "poolsBefore (Pools (beforeForbidden conf)) = Pools (beforeForbidden conf)"
    using beforeForbidden_ok [of conf] by (simp add: poolsBefore_all_ok)
  then show ?thesis
    using updatePools_created [of "Pools (beforeForbidden conf)" pm pool]
    by (simp add: UpdateEnvMaps_maps)
qed

lemma entryEffect_unnamed:
  "\<forall>e\<in>set es. Name e \<noteq> k \<Longrightarrow> entryEffect es k old = old"
proof -
  assume "\<forall>e\<in>set es. Name e \<noteq> k"
  then have "find (\<lambda>e. Name e = k) (rev es) = None"
    by (simp add: find_None_iff)
  then show ?thesis by (simp add: entryEffect_def lastEntry_def)
qed

lemma entriesFor_append:
  "entriesFor t (xs @ ys) = entriesFor t xs @ entriesFor t ys"
  by (simp add: entriesFor_def)

lemma entriesFor_tagged:
  "entriesFor t (map (Pair t') es) = (if t = t' then es else [])"
  by (induction es) (auto simp: entriesFor_def)

lemma entriesFor_pools_global:
  "entriesFor None (concat (map (\<lambda>p. map (Pair (Some (Pool_Name p))) (Pool_Envs p)) ps)) = []"
  by (induction ps) (simp_all add: entriesFor_append entriesFor_tagged, simp add: entriesFor_def)

lemma entriesFor_pools:
  "entriesFor (Some pool) (concat (map (\<lambda>p. map (Pair (Some (Pool_Name p))) (Pool_Envs p)) ps))
   = poolEntries ps pool"
proof (induction ps)
  case Nil
  show ?case by (simp add: entriesFor_def poolEntries_def)
next
  case (Cons p ps)
  then show ?case
    by (auto simp: entriesFor_append entriesFor_tagged poolEntries_Cons)
qed

lemma entriesFor_global: "entriesFor None (patchEntries c) = Envs c"
  by (simp add: patchEntries_def entriesFor_append entriesFor_tagged entriesFor_pools_global)

lemma entriesFor_pool: "entriesFor (Some pool) (patchEntries c) = poolEntries (Pools c) pool"
  by (simp add: patchEntries_def entriesFor_append entriesFor_tagged entriesFor_pools)

lemma tagged_stop:
  "\<exists>e\<in>set es. forbiddenList (Name e) \<Longrightarrow>
   takeWhile (\<lambda>te. \<not> forbiddenList (Name (snd te))) (map (Pair t) es @ rest)
   = map (Pair t) (takeWhile (\<lambda>e. \<not> forbiddenList (Name e)) es)"
  by (induction es) auto

lemma tagged_pass:
  "\<forall>e\<in>set es. \<not> forbiddenList (Name e) \<Longrightarrow>
   takeWhile (\<lambda>te. \<not> forbiddenList (Name (snd te))) (map (Pair t) es @ rest)
   = map (Pair t) es @ takeWhile (\<lambda>te. \<not> forbiddenList (Name (snd te))) rest"
  by (induction es) auto

lemma poolsBefore_entries:
  "concat (map (\<lambda>p. map (Pair (Some (Pool_Name p))) (Pool_Envs p)) (poolsBefore ps))
   = takeWhile (\<lambda>te. \<not> forbiddenList (Name (snd te)))
       (concat (map (\<lambda>p. map (Pair (Some (Pool_Name p))) (Pool_Envs p)) ps))"
proof (induction ps)
  case Nil
  show ?case by simp
next
  case (Cons p ps)
  show ?case
  proof (cases "\<exists>e\<in>set (Pool_Envs p). forbiddenList (Name e)")
    case True
    then show ?thesis by (simp add: tagged_stop)
  next
    case False
    then show ?thesis using Cons.IH by (simp add: tagged_pass)
  qed
qed

lemma beforeForbidden_entries: "patchEntries (beforeForbidden conf) = appliedEntries conf"
proof (cases "\<exists>e\<in>set (Envs conf). forbiddenList (Name e)")
  case True
  then show ?thesis
    by (simp add: patchEntries_def appliedEntries_def beforeForbidden_def tagged_stop)
next
  case False
  then show ?thesis
    using poolsBefore_entries [of "Pools conf"]
    by (simp add: patchEntries_def appliedEntries_def beforeForbidden_def tagged_pass takeWhile_all_ok)
qed

lemma applied_global: "entriesFor None (appliedEntries conf) = Envs (beforeForbidden conf)"
  using entriesFor_global [of "beforeForbidden conf"] by (simp add: beforeForbidden_entries)

lemma applied_pool:
  "entriesFor (Some pool) (appliedEntries conf) = poolEntries (Pools (beforeForbidden conf)) pool"
  using entriesFor_pool [of pool "beforeForbidden conf"] by (simp add: beforeForbidden_entries)

text \<open>
  C3. A patch with a forbidden name makes \<open>UpdateEnvMaps\<close> return the error
  \<open>cannot set K variable\<close> for the first forbidden name \<open>K\<close> in the order of
  processing (global entries, then each pool's). The entries before that entry are
  applied and no other: in the global map and in the map of every pool each key reads
  what the applied entries of that target make of its old value, the last of them
  named for the key deciding (an empty value deletes, any other is stored) and a key
  none of them names reading as before; a pool has a map exactly when it had one or
  is among the pools reached. The part of the patch before the offending entry,
  merged alone, succeeds and leaves the same maps. No forbidden key is written: such
  a key reads the same in the global map and in every pool's map before and after
  the call.
\<close>

theorem UpdateEnvMaps_forbidden_key:
  assumes "\<exists>k\<in>set (patchNames conf). forbiddenList k"
  shows "\<exists>k. find forbiddenList (patchNames conf) = Some k
           \<and> forbiddenList k
           \<and> fst (UpdateEnvMaps conf envMap poolEnvMap)
               = Some (Errorf (''cannot set '' @ k @ '' variable''))
           \<and> (\<forall>n. map_of (fst (snd (UpdateEnvMaps conf envMap poolEnvMap))) n
                    = entryEffect (entriesFor None (appliedEntries conf)) n (map_of envMap n))
           \<and> (\<forall>pool n. poolLookup (snd (snd (UpdateEnvMaps conf envMap poolEnvMap))) pool n
                    = entryEffect (entriesFor (Some pool) (appliedEntries conf)) n
                        (poolLookup poolEnvMap pool n))
           \<and> (\<forall>pool. map_of (snd (snd (UpdateEnvMaps conf envMap poolEnvMap))) pool \<noteq> None
                    \<longleftrightarrow> map_of poolEnvMap pool \<noteq> None
                         \<or> pool \<in> Pool_Name ` set (Pools (beforeForbidden conf)))
           \<and> patchEntries (beforeForbidden conf) = appliedEntries conf
           \<and> patchNames (beforeForbidden conf)
               = takeWhile (\<lambda>n. \<not> forbiddenList n) (patchNames conf)
           \<and> UpdateEnvMaps (beforeForbidden conf) envMap poolEnvMap
               = (None, snd (UpdateEnvMaps conf envMap poolEnvMap))
           \<and> (\<forall>n. forbiddenList n \<longrightarrow>
                 map_of (fst (snd (UpdateEnvMaps conf envMap poolEnvMap))) n = map_of envMap n
                 \<and> (\<forall>pool. poolLookup (snd (snd (UpdateEnvMaps conf envMap poolEnvMap))) pool n
                             = poolLookup poolEnvMap pool n))"
proof -
  obtain k where k: "find forbiddenList (patchNames conf) = Some k"
    using assms by (cases "find forbiddenList (patchNames conf)") (auto simp: find_None_iff)
  then have fk: "forbiddenList k" by (auto simp: find_Some_iff)
  have err: "fst (UpdateEnvMaps conf envMap poolEnvMap)
             = Some (Errorf (''cannot set '' @ k @ '' variable''))"
    by (simp add: UpdateEnvMaps_error k)
  have glob: "\<forall>n. map_of (fst (snd (UpdateEnvMaps conf envMap poolEnvMap))) n
                = entryEffect (entriesFor None (appliedEntries conf)) n (map_of envMap n)"
    by (simp add: applied_global UpdateEnvMaps_global_effect)
  have pool: "\<forall>pool n. poolLookup (snd (snd (UpdateEnvMaps conf envMap poolEnvMap))) pool n
                = entryEffect (entriesFor (Some pool) (appliedEntries conf)) n
                    (poolLookup poolEnvMap pool n)"
    by (simp only: applied_pool UpdateEnvMaps_pool_effect) simp
  have made: "\<forall>pool. map_of (snd (snd (UpdateEnvMaps conf envMap poolEnvMap))) pool \<noteq> None
                \<longleftrightarrow> map_of poolEnvMap pool \<noteq> None
                     \<or> pool \<in> Pool_Name ` set (Pools (beforeForbidden conf))"
    using UpdateEnvMaps_pool_created [of conf envMap poolEnvMap] by simp
  have ents: "patchEntries (beforeForbidden conf) = appliedEntries conf"
    by (rule beforeForbidden_entries)
  have names: "patchNames (beforeForbidden conf)
               = takeWhile (\<lambda>n. \<not> forbiddenList n) (patchNames conf)"
    by (rule beforeForbidden_names)
  have alone: "UpdateEnvMaps (beforeForbidden conf) envMap poolEnvMap
               = (None, snd (UpdateEnvMaps conf envMap poolEnvMap))"
    using beforeForbidden_ok [of conf]
    by (simp add: UpdateEnvMaps_maps UpdateEnvMaps_ok)
  have kept: "\<forall>n. forbiddenList n \<longrightarrow>
                map_of (fst (snd (UpdateEnvMaps conf envMap poolEnvMap))) n = map_of envMap n
                \<and> (\<forall>pool. poolLookup (snd (snd (UpdateEnvMaps conf envMap poolEnvMap))) pool n
                            = poolLookup poolEnvMap pool n)"
  proof (intro allI impI)
    fix n
    assume n: "forbiddenList n"
    have g: "\<forall>e\<in>set (Envs (beforeForbidden conf)). Name e \<noteq> n"
      using beforeForbidden_ok [of conf] n by auto
    have p: "\<forall>e\<in>set (poolEntries (Pools (beforeForbidden conf)) pool). Name e \<noteq> n" for pool
      using beforeForbidden_ok [of conf] n by (auto simp: poolEntries_def)
    show "map_of (fst (snd (UpdateEnvMaps conf envMap poolEnvMap))) n = map_of envMap n
          \<and> (\<forall>pool. poolLookup (snd (snd (UpdateEnvMaps conf envMap poolEnvMap))) pool n
                      = poolLookup poolEnvMap pool n)"
      by (simp add: UpdateEnvMaps_global_effect UpdateEnvMaps_pool_effect
          entryEffect_unnamed [OF g] entryEffect_unnamed [OF p])
  qed
  show ?thesis
    by (rule exI [of _ k]) (intro conjI k fk err glob pool made ents names alone kept)
qed

text \<open>
  The patch \<open>patchWithToken\<close>: the global entries and those of \<open>p1\<close> and the first of
  \<open>p2\<close> are applied, the entry \<open>E\<close> after the forbidden one and the pool \<open>p3\<close> are not.
\<close>

theorem UpdateEnvMaps_forbidden_key_witness:
  "(\<exists>k\<in>set (patchNames patchWithToken). forbiddenList k)
   \<and> UpdateEnvMaps patchWithToken [(''B'', ''0'')] [(''p2'', [(''TSURU_TOKEN'', ''old'')])]
       = (Some (Errorf ''cannot set TSURU_TOKEN variable''),
          [(''A'', ''1'')],
          [(''p2'', [(''TSURU_TOKEN'', ''old''), (''D'', ''4'')]), (''p1'', [(''C'', ''3'')])])
   \<and> appliedEntries patchWithToken
       = [(None, \<lparr>Name = ''A'', Value = ''1''\<rparr>), (None, \<lparr>Name = ''B'', Value = []\<rparr>),
          (Some ''p1'', \<lparr>Name = ''C'', Value = ''3''\<rparr>), (Some ''p2'', \<lparr>Name = ''D'', Value = ''4''\<rparr>)]
   \<and> map_of (fst (snd (UpdateEnvMaps patchWithToken [(''B'', ''0'')]
                         [(''p2'', [(''TSURU_TOKEN'', ''old'')])]))) ''B''
       = entryEffect (entriesFor None (appliedEntries patchWithToken)) ''B'' (Some ''0'')
   \<and> entryEffect (entriesFor None (appliedEntries patchWithToken)) ''B'' (Some ''0'') = None
   \<and> (\<exists>k. find forbiddenList (patchNames patchWithToken) = Some k
            \<and> fst (UpdateEnvMaps patchWithToken [(''B'', ''0'')] [(''p2'', [(''TSURU_TOKEN'', ''old'')])])
                = Some (Errorf (''cannot set '' @ k @ '' variable'')))"
proof -
  have h: "\<exists>k\<in>set (patchNames patchWithToken). forbiddenList k"
    by code_simp
  have v: "UpdateEnvMaps patchWithToken [(''B'', ''0'')] [(''p2'', [(''TSURU_TOKEN'', ''old'')])]
       = (Some (Errorf ''cannot set TSURU_TOKEN variable''),
          [(''A'', ''1'')],
          [(''p2'', [(''TSURU_TOKEN'', ''old''), (''D'', ''4'')]), (''p1'', [(''C'', ''3'')])])"
    by code_simp
  have a: "appliedEntries patchWithToken
       = [(None, \<lparr>Name = ''A'', Value = ''1''\<rparr>), (None, \<lparr>Name = ''B'', Value = []\<rparr>),
          (Some ''p1'', \<lparr>Name = ''C'', Value = ''3''\<rparr>), (Some ''p2'', \<lparr>Name = ''D'', Value = ''4''\<rparr>)]"
    by code_simp
  have e: "entryEffect (entriesFor None (appliedEntries patchWithToken)) ''B'' (Some ''0'') = None"
    by code_simp
  have m: "map_of [(''B'', ''0'')] ''B'' = Some ''0''" by simp
  from UpdateEnvMaps_forbidden_key
      [OF h, of "[(''B'', ''0'')]" "[(''p2'', [(''TSURU_TOKEN'', ''old'')])]"]
  obtain k where k: "find forbiddenList (patchNames patchWithToken) = Some k"
    and err: "fst (UpdateEnvMaps patchWithToken [(''B'', ''0'')] [(''p2'', [(''TSURU_TOKEN'', ''old'')])])
                = Some (Errorf (''cannot set '' @ k @ '' variable''))"
    and glob: "\<forall>n. map_of (fst (snd (UpdateEnvMaps patchWithToken [(''B'', ''0'')]
                         [(''p2'', [(''TSURU_TOKEN'', ''old'')])]))) n
                = entryEffect (entriesFor None (appliedEntries patchWithToken)) n
                    (map_of [(''B'', ''0'')] n)"
    by blast
  have b: "map_of (fst (snd (UpdateEnvMaps patchWithToken [(''B'', ''0'')]
                         [(''p2'', [(''TSURU_TOKEN'', ''old'')])]))) ''B''
       = entryEffect (entriesFor None (appliedEntries patchWithToken)) ''B'' (Some ''0'')"
    using glob [THEN spec, of "''B''"] by (simp only: m)
  from k err have ex: "\<exists>k. find forbiddenList (patchNames patchWithToken) = Some k
            \<and> fst (UpdateEnvMaps patchWithToken [(''B'', ''0'')] [(''p2'', [(''TSURU_TOKEN'', ''old'')])])
                = Some (Errorf (''cannot set '' @ k @ '' variable''))"
    by blast
  from h v a b e ex show ?thesis by (intro conjI)
qed

text \<open>
  C4. For the entries \<open>UpdateEnvMaps\<close> applies (those before the first forbidden one;
  all of them, without an error, when the patch has no forbidden name): the last entry
  named \<open>k\<close> decides the key \<open>k\<close> of its target map, the global map for a global entry
  and the map of its pool for a pool entry; an empty value deletes the key, any other
  value is stored under it, and a key no entry names keeps what it had. A pool has a
  map after the call exactly when it had one before or the patch holds overrides for it.
\<close>

theorem UpdateEnvMaps_entry_rule:
  "(case UpdateEnvMaps conf envMap poolEnvMap of
      (r, envMap', poolEnvMap') \<Rightarrow>
        (\<forall>k. map_of envMap' k = entryEffect (Envs (beforeForbidden conf)) k (map_of envMap k))
        \<and> (\<forall>pool k. poolLookup poolEnvMap' pool k
               = entryEffect (poolEntries (Pools (beforeForbidden conf)) pool) k
                   (poolLookup poolEnvMap pool k))
        \<and> (\<forall>pool. map_of poolEnvMap' pool \<noteq> None \<longleftrightarrow>
               map_of poolEnvMap pool \<noteq> None
               \<or> pool \<in> Pool_Name ` set (Pools (beforeForbidden conf))))
   \<and> ((\<forall>k\<in>set (patchNames conf). \<not> forbiddenList k) \<longrightarrow>
        beforeForbidden conf = conf \<and> fst (UpdateEnvMaps conf envMap poolEnvMap) = None)
   \<and> entryEffect (es @ [\<lparr>Name = k, Value = v\<rparr>]) k old = (if v = [] then None else Some v)
   \<and> (k \<notin> Name ` set es \<longrightarrow> entryEffect es k old = old)"
proof -
  obtain r envMap' poolEnvMap' where run: "UpdateEnvMaps conf envMap poolEnvMap = (r, envMap', poolEnvMap')"
    by (cases "UpdateEnvMaps conf envMap poolEnvMap") auto
  have a: "map_of envMap' k = entryEffect (Envs (beforeForbidden conf)) k (map_of envMap k)" for k
    using UpdateEnvMaps_global_effect [of conf envMap poolEnvMap k] run by simp
  have b: "poolLookup poolEnvMap' pool k
           = entryEffect (poolEntries (Pools (beforeForbidden conf)) pool) k (poolLookup poolEnvMap pool k)"
    for pool k
    using UpdateEnvMaps_pool_effect [of conf envMap poolEnvMap pool k] run by simp
  have c: "map_of poolEnvMap' pool \<noteq> None \<longleftrightarrow>
           map_of poolEnvMap pool \<noteq> None \<or> pool \<in> Pool_Name ` set (Pools (beforeForbidden conf))"
    for pool
    using UpdateEnvMaps_pool_created [of conf envMap poolEnvMap pool] run by auto
  have d: "beforeForbidden conf = conf \<and> fst (UpdateEnvMaps conf envMap poolEnvMap) = None"
    if "\<forall>k\<in>set (patchNames conf). \<not> forbiddenList k"
  proof -
    have "find forbiddenList (patchNames conf) = None"
      using that by (auto simp: find_None_iff)
    then show ?thesis
      using beforeForbidden_id [OF that] by (simp add: UpdateEnvMaps_error)
  qed
  have e: "entryEffect (es @ [\<lparr>Name = k, Value = v\<rparr>]) k old = (if v = [] then None else Some v)"
    by (simp add: entryEffect_append entryEffect_single)
  have f: "entryEffect es k old = old" if "k \<notin> Name ` set es"
    using that by (intro entryEffect_unnamed) auto
  from a b c d e f show ?thesis
    unfolding run by (simp only: prod.case) blast
qed

theorem UpdateEnvMaps_entry_rule_witness:
  "(\<forall>k\<in>set (patchNames patchAllowed). \<not> forbiddenList k) = True
   \<and> UpdateEnvMaps patchAllowed [(''B'', ''0''), (''Z'', ''9'')] [(''p1'', [(''C'', ''0'')])]
       = (None, [(''Z'', ''9''), (''A'', ''2'')], [(''p1'', [(''C'', ''3'')]), (''p2'', [])])
   \<and> beforeForbidden patchAllowed = patchAllowed
   \<and> entryEffect (Envs patchAllowed) ''A'' None = Some ''2''
   \<and> entryEffect (Envs patchAllowed) ''B'' (Some ''0'') = None
   \<and> entryEffect (Envs patchAllowed) ''Z'' (Some ''9'') = Some ''9''"
proof -
  have h: "\<forall>k\<in>set (patchNames patchAllowed). \<not> forbiddenList k"
    by code_simp
  have v: "UpdateEnvMaps patchAllowed [(''B'', ''0''), (''Z'', ''9'')] [(''p1'', [(''C'', ''0'')])]
       = (None, [(''Z'', ''9''), (''A'', ''2'')], [(''p1'', [(''C'', ''3'')]), (''p2'', [])])"
    by code_simp
  have e: "entryEffect (Envs patchAllowed) ''A'' None = Some ''2''
           \<and> entryEffect (Envs patchAllowed) ''B'' (Some ''0'') = None
           \<and> entryEffect (Envs patchAllowed) ''Z'' (Some ''9'') = Some ''9''"
    by code_simp
  show ?thesis
    using h v e UpdateEnvMaps_entry_rule
      [of patchAllowed "[(''B'', ''0''), (''Z'', ''9'')]" "[(''p1'', [(''C'', ''0'')])]"]
    by simp
qed

subsection \<open>The calls that leave the package\<close>

lemma emit_fields [simp]:
  "trace (emit ev w) = trace w @ [ev]"
  "bsconfig (emit ev w) = bsconfig w"
  "script (emit ev w) = script w"
  "settings (emit ev w) = settings w"
  "rangeEnvMap (emit ev w) = rangeEnvMap w"
  "rangePoolEnvMap (emit ev w) = rangePoolEnvMap w"
  by (simp_all add: emit_def)

lemma ask_fields:
  assumes "ask w = (a, w1)"
  shows "trace w1 = trace w" "bsconfig w1 = bsconfig w" "settings w1 = settings w"
    "rangeEnvMap w1 = rangeEnvMap w" "rangePoolEnvMap w1 = rangePoolEnvMap w"
    "script w1 = tl (script w)"
  using assms by (auto simp: ask_def split: list.splits)

lemma collection_run:
  assumes "collection w = (r, w1)"
  shows "trace w1 = trace w @ [DbConn r]" "bsconfig w1 = bsconfig w" "settings w1 = settings w"
    "rangeEnvMap w1 = rangeEnvMap w"
proof -
  obtain a w0 where a: "ask w = (a, w0)" by force
  show "trace w1 = trace w @ [DbConn r]" "bsconfig w1 = bsconfig w" "settings w1 = settings w"
    "rangeEnvMap w1 = rangeEnvMap w"
    using assms a ask_fields [OF a] by (auto simp: collection_def split: sum.splits)
qed

lemma AppLogin_run:
  assumes "AppLogin w = (r, w1)"
  shows "trace w1 = trace w @ [AuthAppLogin r]" "bsconfig w1 = bsconfig w" "settings w1 = settings w"
    "rangeEnvMap w1 = rangeEnvMap w"
proof -
  obtain a w0 where a: "ask w = (a, w0)" by force
  show "trace w1 = trace w @ [AuthAppLogin r]" "bsconfig w1 = bsconfig w" "settings w1 = settings w"
    "rangeEnvMap w1 = rangeEnvMap w"
    using assms a ask_fields [OF a] by (auto simp: AppLogin_def)
qed

lemma mgoUpsert_fails: "mgoUpsert i q upd c = (Some err, c') \<Longrightarrow> c' = c \<and> IsDup err"
  by (auto simp: mgoUpsert_def split: option.splits if_splits)

lemma Upsert_run:
  assumes "Upsert i q upd w = (r, w1)"
  shows "trace w1 = trace w @ [DbUpsert i q upd r]" "settings w1 = settings w"
    "rangeEnvMap w1 = rangeEnvMap w"
    "r \<noteq> None \<Longrightarrow> bsconfig w1 = bsconfig w"
    "r = None \<Longrightarrow> mgoUpsert i q upd (bsconfig w) = (None, bsconfig w1)"
proof -
  obtain a w0 where a: "ask w = (a, w0)" by force
  obtain r' c' where m: "mgoUpsert i q upd (bsconfig w) = (r', c')" by force
  note f = ask_fields [OF a]
  show "trace w1 = trace w @ [DbUpsert i q upd r]" "settings w1 = settings w"
    "rangeEnvMap w1 = rangeEnvMap w"
    using assms a f m by (auto simp: Upsert_def split: sum.splits)
  show "bsconfig w1 = bsconfig w" if "r \<noteq> None"
    using that assms a f m mgoUpsert_fails [of i q upd "bsconfig w"]
    by (cases a) (auto simp: Upsert_def)
  show "mgoUpsert i q upd (bsconfig w) = (None, bsconfig w1)" if "r = None"
    using that assms a f m by (cases a) (auto simp: Upsert_def)
qed

lemma FindIdOne_run:
  assumes "FindIdOne i w = (r, w1)"
  shows "trace w1 = trace w @ [DbFindId i (case r of Inl err \<Rightarrow> Some err | Inr _ \<Rightarrow> None)]"
    "bsconfig w1 = bsconfig w" "settings w1 = settings w" "rangeEnvMap w1 = rangeEnvMap w"
    "\<And>c. r = Inr c \<Longrightarrow> \<exists>d. bsconfig w i = Some d \<and> c = decodeConfig d"
proof -
  obtain a w0 where a: "ask w = (a, w0)" by force
  note f = ask_fields [OF a]
  show "trace w1 = trace w @ [DbFindId i (case r of Inl err \<Rightarrow> Some err | Inr _ \<Rightarrow> None)]"
    "bsconfig w1 = bsconfig w" "settings w1 = settings w" "rangeEnvMap w1 = rangeEnvMap w"
    using assms a f by (auto simp: FindIdOne_def split: sum.splits option.splits)
  show "\<exists>d. bsconfig w i = Some d \<and> c = decodeConfig d" if "r = Inr c" for c
    using that assms a f by (auto simp: FindIdOne_def split: sum.splits option.splits)
qed

lemma Close_fields [simp]:
  "trace (Close w) = trace w @ [DbClose]" "bsconfig (Close w) = bsconfig w"
  "settings (Close w) = settings w" "rangeEnvMap (Close w) = rangeEnvMap w"
  by (simp_all add: Close_def)

lemma Logout_fields [simp]:
  "trace (Logout t w) = trace w @ [AuthLogout t]" "bsconfig (Logout t w) = bsconfig w"
  "settings (Logout t w) = settings w" "rangeEnvMap (Logout t w) = rangeEnvMap w"
  by (simp_all add: Logout_def)

lemma getToken_runs:
  assumes "Token conf = []" and run: "getToken conf w = (r, conf', w')"
  shows "settings w' = settings w \<and> rangeEnvMap w' = rangeEnvMap w \<and>
     ((\<exists>err. trace w' = trace w @ [DbConn (Some err)] \<and> r = Inl err \<and> conf' = conf \<and> bsconfig w' = bsconfig w)
     \<or> (\<exists>err. trace w' = trace w @ [DbConn None, AuthAppLogin (Inl err), DbClose]
           \<and> r = Inl err \<and> conf' = conf \<and> bsconfig w' = bsconfig w)
     \<or> (\<exists>t. trace w' = trace w @ [DbConn None, AuthAppLogin (Inr t), tokenUpsert t None, DbClose]
           \<and> r = Inr t \<and> conf' = conf\<lparr>Token := t\<rparr>
           \<and> mgoUpsert bsUniqueID tokenUnset [(''token'', BString t)] (bsconfig w) = (None, bsconfig w'))
     \<or> (\<exists>t err. \<not> IsDup err
           \<and> trace w' = trace w @ [DbConn None, AuthAppLogin (Inr t), tokenUpsert t (Some err),
                                      AuthLogout t, DbClose]
           \<and> r = Inl err \<and> conf' = conf \<and> bsconfig w' = bsconfig w)
     \<or> (\<exists>t err err'. IsDup err
           \<and> trace w' = trace w @ [DbConn None, AuthAppLogin (Inr t), tokenUpsert t (Some err),
                                      AuthLogout t, DbFindId bsUniqueID (Some err'), DbClose]
           \<and> r = Inl err' \<and> conf' = conf \<and> bsconfig w' = bsconfig w)
     \<or> (\<exists>t err d. IsDup err
           \<and> trace w' = trace w @ [DbConn None, AuthAppLogin (Inr t), tokenUpsert t (Some err),
                                      AuthLogout t, DbFindId bsUniqueID None, DbClose]
           \<and> bsconfig w' bsUniqueID = Some d
           \<and> r = Inr (Token (decodeConfig d)) \<and> conf' = decodeConfig d \<and> bsconfig w' = bsconfig w))"
proof -
  obtain r1 w1 where c: "collection w = (r1, w1)" by force
  note c' = collection_run [OF c]
  show ?thesis
  proof (cases r1)
    case (Some err)
    with assms c c' show ?thesis by (auto simp: getToken_def)
  next
    case None
    obtain r2 w2 where l: "AppLogin w1 = (r2, w2)" by force
    note l' = AppLogin_run [OF l]
    show ?thesis
    proof (cases r2)
      case (Inl err)
      with assms c c' None l l' show ?thesis by (auto simp: getToken_def)
    next
      case (Inr t)
      obtain r3 w3 where u: "Upsert bsUniqueID tokenUnset [(''token'', BString t)] w2 = (r3, w3)"
        by force
      note u' = Upsert_run [OF u]
      show ?thesis
      proof (cases r3)
        case None3: None
        with assms c c' None l l' Inr u u' show ?thesis
          by (auto simp: getToken_def tokenUpsert_def)
      next
        case (Some err)
        show ?thesis
        proof (cases "IsDup err")
          case False
          with assms c c' None l l' Inr u u' Some show ?thesis
            by (auto simp: getToken_def tokenUpsert_def)
        next
          case True
          obtain r5 w5 where f: "FindIdOne bsUniqueID (Logout t w3) = (r5, w5)" by force
          note f' = FindIdOne_run [OF f]
          show ?thesis
          proof (cases r5)
            case (Inl err')
            with assms c c' None l l' Inr u u' Some True f f' show ?thesis
              by (auto simp: getToken_def tokenUpsert_def)
          next
            case Inr5: (Inr loaded)
            then obtain d where "bsconfig (Logout t w3) bsUniqueID = Some d" "loaded = decodeConfig d"
              using f'(5) by blast
            with assms c c' None l l' Inr u u' Some True f f' Inr5 show ?thesis
              by (auto simp: getToken_def tokenUpsert_def)
          qed
        qed
      qed
    qed
  qed
qed


lemma tokenUnset_matches:
  "list_all (matches d) tokenUnset \<longleftrightarrow> d ''token'' = Some (BString []) \<or> d ''token'' = None"
  by (auto simp: tokenUnset_def)

lemma tokenUnset_applies:
  assumes "mgoUpsert bsUniqueID tokenUnset [(''token'', BString t)] c = (None, c')"
  shows "(case c bsUniqueID of
            None \<Rightarrow> True
          | Some d \<Rightarrow> d ''token'' = Some (BString []) \<or> d ''token'' = None)
         \<and> (\<exists>d'. c' bsUniqueID = Some d' \<and> d' ''token'' = Some (BString t))"
  using assms
  by (auto simp: mgoUpsert_def tokenUnset_matches split: option.splits if_splits)

text \<open>
  C2. With a token in \<open>conf\<close>, \<open>getToken\<close> returns it and leaves the world as it is: no
  call leaves the package. Without one, the calls \<open>getToken\<close> makes are one of six
  runs. Once the collection is obtained it asks for a fresh token; with the token \<open>t\<close>
  issued it attempts the upsert of \<open>t\<close> under the selector \<open>tokenUnset\<close>, which a
  document satisfies exactly when its token is empty or missing, so that the upsert
  applies only to such a record (or inserts the record when there is none). When the
  upsert fails with a duplicate-key error, \<open>getToken\<close> logs \<open>t\<close> out, loads the record
  again and returns the token stored in it (or the error of the load).
\<close>

theorem getToken_protocol:
  "(Token conf \<noteq> [] \<longrightarrow> getToken conf w = (Inr (Token conf), conf, w))
   \<and> (Token conf = [] \<and> getToken conf w = (r, conf', w') \<longrightarrow>
        (\<exists>err. trace w' = trace w @ [DbConn (Some err)] \<and> r = Inl err \<and> conf' = conf)
        \<or> (\<exists>err. trace w' = trace w @ [DbConn None, AuthAppLogin (Inl err), DbClose]
              \<and> r = Inl err \<and> conf' = conf)
        \<or> (\<exists>t. trace w' = trace w @ [DbConn None, AuthAppLogin (Inr t), tokenUpsert t None, DbClose]
              \<and> r = Inr t \<and> conf' = conf\<lparr>Token := t\<rparr>
              \<and> mgoUpsert bsUniqueID tokenUnset [(''token'', BString t)] (bsconfig w)
                  = (None, bsconfig w'))
        \<or> (\<exists>t err. \<not> IsDup err
              \<and> trace w' = trace w @ [DbConn None, AuthAppLogin (Inr t), tokenUpsert t (Some err),
                                         AuthLogout t, DbClose]
              \<and> r = Inl err \<and> conf' = conf \<and> bsconfig w' = bsconfig w)
        \<or> (\<exists>t err err'. IsDup err
              \<and> trace w' = trace w @ [DbConn None, AuthAppLogin (Inr t), tokenUpsert t (Some err),
                                         AuthLogout t, DbFindId bsUniqueID (Some err'), DbClose]
              \<and> r = Inl err' \<and> conf' = conf \<and> bsconfig w' = bsconfig w)
        \<or> (\<exists>t err d. IsDup err
              \<and> trace w' = trace w @ [DbConn None, AuthAppLogin (Inr t), tokenUpsert t (Some err),
                                         AuthLogout t, DbFindId bsUniqueID None, DbClose]
              \<and> bsconfig w' bsUniqueID = Some d
              \<and> r = Inr (Token (decodeConfig d)) \<and> conf' = decodeConfig d
              \<and> bsconfig w' = bsconfig w))
   \<and> (list_all (matches d) tokenUnset \<longleftrightarrow> d ''token'' = Some (BString []) \<or> d ''token'' = None)
   \<and> (mgoUpsert bsUniqueID tokenUnset [(''token'', BString t)] c = (None, c') \<longrightarrow>
        (case c bsUniqueID of
           None \<Rightarrow> True
         | Some d \<Rightarrow> d ''token'' = Some (BString []) \<or> d ''token'' = None)
        \<and> (\<exists>d'. c' bsUniqueID = Some d' \<and> d' ''token'' = Some (BString t)))"
proof -
  have a: "getToken conf w = (Inr (Token conf), conf, w)" if "Token conf \<noteq> []"
    using that by (simp add: getToken_def)
  note b = getToken_runs [of conf w r conf' w']
  note c = tokenUnset_matches [of d]
  note d = tokenUnset_applies [of t c c']
  from a b c d show ?thesis by blast
qed

text \<open>A cached token; and the race lost: the record already holds a token when \<open>k9\<close> is issued.\<close>

theorem getToken_protocol_witness:
  "Token (emptyConfig\<lparr>Token := ''cached''\<rparr>) \<noteq> []
   \<and> getToken (emptyConfig\<lparr>Token := ''cached''\<rparr>) storedWorld
       = (Inr ''cached'', emptyConfig\<lparr>Token := ''cached''\<rparr>, storedWorld)
   \<and> Token emptyConfig = []
   \<and> fst (getToken emptyConfig (storedWorld\<lparr>script := [Inr [], Inr ''k9'']\<rparr>)) = Inr ''stored''
   \<and> trace (snd (snd (getToken emptyConfig (storedWorld\<lparr>script := [Inr [], Inr ''k9'']\<rparr>))))
       = [DbConn None, AuthAppLogin (Inr ''k9''),
          tokenUpsert ''k9'' (Some (ErrDup ''E11000 duplicate key error'')),
          AuthLogout ''k9'', DbFindId ''bs'' None, DbClose]
   \<and> fst (getToken emptyConfig (emptyWorld\<lparr>script := [Inr [], Inr ''k9'']\<rparr>)) = Inr ''k9''
   \<and> mgoUpsert bsUniqueID tokenUnset [(''token'', BString ''k9'')] Map.empty
       = (None, bsconfig (snd (snd (getToken emptyConfig (emptyWorld\<lparr>script := [Inr [], Inr ''k9'']\<rparr>)))))"
proof -
  let ?w = "emptyWorld\<lparr>script := [Inr [], Inr ''k9'']\<rparr>"
  have h1: "Token (emptyConfig\<lparr>Token := ''cached''\<rparr>) \<noteq> []" by simp
  have h2: "Token emptyConfig = []" by (simp add: emptyConfig_def)
  have r1: "fst (getToken emptyConfig (storedWorld\<lparr>script := [Inr [], Inr ''k9'']\<rparr>)) = Inr ''stored''"
    by (simp add: getToken_def emptyConfig_def storedWorld_def emptyWorld_def collection_def ask_def
        AppLogin_def Upsert_def mgoUpsert_def tokenUnset_def bsUniqueID_def Logout_def FindIdOne_def
        decodeConfig_def Close_def emit_def)
  have r2: "trace (snd (snd (getToken emptyConfig (storedWorld\<lparr>script := [Inr [], Inr ''k9'']\<rparr>))))
       = [DbConn None, AuthAppLogin (Inr ''k9''),
          tokenUpsert ''k9'' (Some (ErrDup ''E11000 duplicate key error'')),
          AuthLogout ''k9'', DbFindId ''bs'' None, DbClose]"
    by (simp add: getToken_def emptyConfig_def storedWorld_def emptyWorld_def collection_def ask_def
        AppLogin_def Upsert_def mgoUpsert_def tokenUnset_def bsUniqueID_def Logout_def FindIdOne_def
        decodeConfig_def Close_def emit_def tokenUpsert_def)
  have r3: "getToken emptyConfig ?w
            = (fst (getToken emptyConfig ?w), fst (snd (getToken emptyConfig ?w)),
               snd (snd (getToken emptyConfig ?w)))"
    by simp
  have r4: "fst (getToken emptyConfig ?w) = Inr ''k9''"
    by (simp add: getToken_def emptyConfig_def emptyWorld_def collection_def ask_def
        AppLogin_def Upsert_def mgoUpsert_def tokenUnset_def bsUniqueID_def Close_def emit_def)
  have r5: "trace (snd (snd (getToken emptyConfig ?w)))
            = [DbConn None, AuthAppLogin (Inr ''k9''), tokenUpsert ''k9'' None, DbClose]"
    by (simp add: getToken_def emptyConfig_def emptyWorld_def collection_def ask_def
        AppLogin_def Upsert_def mgoUpsert_def tokenUnset_def bsUniqueID_def Close_def emit_def
        tokenUpsert_def)
  have r6: "bsconfig ?w = Map.empty" "trace ?w = []" by (simp_all add: emptyWorld_def)
  have up: "mgoUpsert bsUniqueID tokenUnset [(''token'', BString ''k9'')] Map.empty
            = (None, bsconfig (snd (snd (getToken emptyConfig ?w))))"
    using getToken_protocol [of "emptyConfig" ?w "fst (getToken emptyConfig ?w)"
        "fst (snd (getToken emptyConfig ?w))" "snd (snd (getToken emptyConfig ?w))"] h2 r3 r4 r5 r6
    by (auto simp: tokenUpsert_def)
  show ?thesis
    using h1 h2 r1 r2 r4 up
      getToken_protocol [of "emptyConfig\<lparr>Token := ''cached''\<rparr>" storedWorld]
    by simp
qed

text \<open>
  C10. Whenever the upsert of the token fails in a run of \<open>getToken\<close>, whatever the
  error, the call that follows it is the logout of the token \<open>t\<close> just issued, before
  \<open>getToken\<close> returns, and the collection is left as it was. The token is kept
  nowhere: \<open>conf\<close> held no token, and after an error that is not a duplicate-key error
  \<open>getToken\<close> returns that error with \<open>conf\<close> as it was; after a duplicate-key error
  it returns the error of the load with \<open>conf\<close> as it was, or the token of the stored
  record with \<open>conf\<close> read from that record.
\<close>

theorem getToken_failed_upsert_logs_out:
  assumes "getToken conf w = (r, conf', w')"
    and "trace w' = trace w @ evs"
    and "DbUpsert i q upd (Some err) \<in> set evs"
  shows "\<exists>t rest. evs = [DbConn None, AuthAppLogin (Inr t), DbUpsert i q upd (Some err), AuthLogout t] @ rest
           \<and> i = bsUniqueID \<and> q = tokenUnset
           \<and> upd = [(''token'', BString t)]
           \<and> bsconfig w' = bsconfig w
           \<and> Token conf = []
           \<and> (if IsDup err
               then (\<exists>err'. rest = [DbFindId bsUniqueID (Some err'), DbClose]
                       \<and> r = Inl err' \<and> conf' = conf)
                    \<or> (\<exists>d. rest = [DbFindId bsUniqueID None, DbClose]
                          \<and> bsconfig w bsUniqueID = Some d
                          \<and> r = Inr (Token (decodeConfig d)) \<and> conf' = decodeConfig d)
               else rest = [DbClose] \<and> r = Inl err \<and> conf' = conf)"
proof -
  have empty: "Token conf = []"
  proof (rule ccontr)
    assume "Token conf \<noteq> []"
    then have "w' = w" using assms(1) by (simp add: getToken_def)
    with assms(2,3) show False by simp
  qed
  have evs: "evs = es" if "trace w' = trace w @ es" for es
    using that assms(2) by simp
  from getToken_runs [OF empty assms(1)] show ?thesis
  proof (elim conjE disjE exE)
    fix e
    assume "trace w' = trace w @ [DbConn (Some e)]"
    from evs [OF this] assms(3) show ?thesis by simp
  next
    fix e
    assume "trace w' = trace w @ [DbConn None, AuthAppLogin (Inl e), DbClose]"
    from evs [OF this] assms(3) show ?thesis by simp
  next
    fix t
    assume "trace w' = trace w @ [DbConn None, AuthAppLogin (Inr t), tokenUpsert t None, DbClose]"
    from evs [OF this] assms(3) show ?thesis by (simp add: tokenUpsert_def)
  next
    fix t e
    assume "\<not> IsDup e" "r = Inl e" "conf' = conf" "bsconfig w' = bsconfig w"
      and "trace w' = trace w @ [DbConn None, AuthAppLogin (Inr t), tokenUpsert t (Some e),
                                 AuthLogout t, DbClose]"
    with evs [OF this(5)] assms(3) empty show ?thesis by (auto simp: tokenUpsert_def)
  next
    fix t e e'
    assume "IsDup e" "r = Inl e'" "conf' = conf" "bsconfig w' = bsconfig w"
      and "trace w' = trace w @ [DbConn None, AuthAppLogin (Inr t), tokenUpsert t (Some e),
                                 AuthLogout t, DbFindId bsUniqueID (Some e'), DbClose]"
    with evs [OF this(5)] assms(3) empty show ?thesis by (auto simp: tokenUpsert_def)
  next
    fix t e d
    assume "IsDup e" "bsconfig w' bsUniqueID = Some d" "r = Inr (Token (decodeConfig d))"
      "conf' = decodeConfig d" "bsconfig w' = bsconfig w"
      and "trace w' = trace w @ [DbConn None, AuthAppLogin (Inr t), tokenUpsert t (Some e),
                                 AuthLogout t, DbFindId bsUniqueID None, DbClose]"
    with evs [OF this(6)] assms(3) empty show ?thesis by (auto simp: tokenUpsert_def)
  qed
qed

text \<open>
  A storage failure of the upsert that is not a duplicate key: the token \<open>k9\<close> is logged
  out, the error is returned and \<open>conf\<close> holds no token.
\<close>

theorem getToken_failed_upsert_logs_out_witness:
  "fst (getToken emptyConfig (emptyWorld\<lparr>script := [Inr [], Inr ''k9'', Inl (ErrExternal ''timeout'')]\<rparr>))
     = Inl (ErrExternal ''timeout'')
   \<and> trace (snd (snd (getToken emptyConfig
              (emptyWorld\<lparr>script := [Inr [], Inr ''k9'', Inl (ErrExternal ''timeout'')]\<rparr>))))
     = [DbConn None, AuthAppLogin (Inr ''k9''), tokenUpsert ''k9'' (Some (ErrExternal ''timeout'')),
        AuthLogout ''k9'', DbClose]
   \<and> fst (snd (getToken emptyConfig
              (emptyWorld\<lparr>script := [Inr [], Inr ''k9'', Inl (ErrExternal ''timeout'')]\<rparr>)))
     = emptyConfig
   \<and> (\<exists>t rest. [DbConn None, AuthAppLogin (Inr ''k9''), tokenUpsert ''k9'' (Some (ErrExternal ''timeout'')),
                    AuthLogout ''k9'', DbClose]
                   = [DbConn None, AuthAppLogin (Inr t),
                      tokenUpsert ''k9'' (Some (ErrExternal ''timeout'')), AuthLogout t] @ rest
                 \<and> rest = [DbClose])"
proof -
  let ?w = "emptyWorld\<lparr>script := [Inr [], Inr ''k9'', Inl (ErrExternal ''timeout'')]\<rparr>"
  let ?evs = "[DbConn None, AuthAppLogin (Inr ''k9''), tokenUpsert ''k9'' (Some (ErrExternal ''timeout'')),
               AuthLogout ''k9'', DbClose]"
  have run: "getToken emptyConfig ?w
             = (fst (getToken emptyConfig ?w), fst (snd (getToken emptyConfig ?w)),
                snd (snd (getToken emptyConfig ?w)))"
    by simp
  have r: "fst (getToken emptyConfig ?w) = Inl (ErrExternal ''timeout'')"
    by (simp add: getToken_def emptyConfig_def emptyWorld_def collection_def ask_def
        AppLogin_def Upsert_def Logout_def Close_def emit_def)
  have tr: "trace (snd (snd (getToken emptyConfig ?w))) = trace ?w @ ?evs"
    by (simp add: getToken_def emptyConfig_def emptyWorld_def collection_def ask_def
        AppLogin_def Upsert_def Logout_def Close_def emit_def tokenUpsert_def)
  have mem: "DbUpsert bsUniqueID tokenUnset [(''token'', BString ''k9'')] (Some (ErrExternal ''timeout''))
             \<in> set ?evs"
    by (simp add: tokenUpsert_def)
  have nd: "\<not> IsDup (ErrExternal ''timeout'')" by simp
  have t0: "trace ?w = []" by (simp add: emptyWorld_def)
  show ?thesis
    using getToken_failed_upsert_logs_out [OF run tr mem] r tr nd t0
    by (auto simp: tokenUpsert_def)
qed

subsection \<open>Saving the configuration\<close>

lemma mgoUpsert_all:
  "mgoUpsert i [] upd c =
     (None, c(i \<mapsto> (case c i of None \<Rightarrow> [''_id'' \<mapsto> BString i] | Some d \<Rightarrow> d) ++ map_of upd))"
  by (simp add: mgoUpsert_def split: option.splits)

lemma UpsertId_run:
  assumes "UpsertId i upd w = (r, w1)"
  shows "trace w1 = trace w @ [DbUpsert i [] upd r]"
    "r \<noteq> None \<Longrightarrow> bsconfig w1 = bsconfig w"
    "r = None \<Longrightarrow> bsconfig w1
       = (bsconfig w)(i \<mapsto> (case bsconfig w i of None \<Rightarrow> [''_id'' \<mapsto> BString i] | Some d \<Rightarrow> d)
                              ++ map_of upd)"
  using Upsert_run [of i "[]" upd w r w1] assms
  by (simp_all add: UpsertId_def mgoUpsert_all)

lemma SaveImage_run:
  assumes "SaveImage digest w = (err, w')"
  shows "err \<noteq> None \<Longrightarrow> bsconfig w' = bsconfig w"
    "err = None \<Longrightarrow> bsconfig w'
       = (bsconfig w)(bsUniqueID \<mapsto>
            (case bsconfig w bsUniqueID of None \<Rightarrow> [''_id'' \<mapsto> BString bsUniqueID] | Some d \<Rightarrow> d)
            ++ map_of [(''image'', BString digest)])"
proof -
  obtain r1 w1 where c: "collection w = (r1, w1)" by force
  note c' = collection_run [OF c]
  obtain r2 w2 where u: "UpsertId bsUniqueID [(''image'', BString digest)] w1 = (r2, w2)" by force
  note u' = UpsertId_run [OF u]
  show "bsconfig w' = bsconfig w" if "err \<noteq> None"
    using that assms c c' u u' by (cases r1) (auto simp: SaveImage_def)
  show "bsconfig w'
       = (bsconfig w)(bsUniqueID \<mapsto>
            (case bsconfig w bsUniqueID of None \<Rightarrow> [''_id'' \<mapsto> BString bsUniqueID] | Some d \<Rightarrow> d)
            ++ map_of [(''image'', BString digest)])" if "err = None"
    using that assms c c' u u' by (cases r1) (auto simp: SaveImage_def)
qed

lemma SaveEnvs_run:
  assumes "SaveEnvs envMap poolEnvMap w = (err, w')"
  shows "err \<noteq> None \<Longrightarrow> bsconfig w' = bsconfig w"
    "err = None \<Longrightarrow> bsconfig w'
       = (bsconfig w)(bsUniqueID \<mapsto>
            (case bsconfig w bsUniqueID of None \<Rightarrow> [''_id'' \<mapsto> BString bsUniqueID] | Some d \<Rightarrow> d)
            ++ map_of [(''envs'', BEnvs (Envs (bsConfigFromEnvMaps envMap poolEnvMap w))),
                       (''pools'', BPools (Pools (bsConfigFromEnvMaps envMap poolEnvMap w)))])"
proof -
  let ?upd = "[(''envs'', BEnvs (Envs (bsConfigFromEnvMaps envMap poolEnvMap w))),
               (''pools'', BPools (Pools (bsConfigFromEnvMaps envMap poolEnvMap w)))]"
  obtain r1 w1 where c: "collection w = (r1, w1)" by force
  note c' = collection_run [OF c]
  obtain r2 w2 where u: "UpsertId bsUniqueID ?upd w1 = (r2, w2)" by force
  note u' = UpsertId_run [OF u]
  show "bsconfig w' = bsconfig w" if "err \<noteq> None"
    using that assms c c' u u' by (cases r1) (auto simp: SaveEnvs_def Let_def)
  show "bsconfig w'
       = (bsconfig w)(bsUniqueID \<mapsto>
            (case bsconfig w bsUniqueID of None \<Rightarrow> [''_id'' \<mapsto> BString bsUniqueID] | Some d \<Rightarrow> d)
            ++ map_of ?upd)" if "err = None"
    using that assms c c' u u' by (cases r1) (auto simp: SaveEnvs_def Let_def)
qed

text \<open>
  C9. \<open>SaveImage\<close> and \<open>SaveEnvs\<close> write to the record \<open>bs\<close> alone, and in it to
  the fields they set alone: after \<open>SaveImage\<close> every field but \<open>image\<close> reads as before
  (so \<open>token\<close>, \<open>envs\<close> and \<open>pools\<close> do), and after \<open>SaveEnvs\<close> every field but
  \<open>envs\<close> and \<open>pools\<close> does (so \<open>image\<close> and \<open>token\<close> do). The field \<open>_id\<close> is
  written only when the upsert creates the record. A call that succeeds has stored its
  values; one that fails leaves the collection as it was.
\<close>

theorem Save_field_scoped:
  "(case SaveImage digest w of
      (err, w') \<Rightarrow>
        (\<forall>f. f \<noteq> ''image'' \<and> f \<noteq> ''_id'' \<longrightarrow> storedField w' f = storedField w f)
        \<and> (bsconfig w bsUniqueID \<noteq> None \<longrightarrow> storedField w' ''_id'' = storedField w ''_id'')
        \<and> (\<forall>i. i \<noteq> bsUniqueID \<longrightarrow> bsconfig w' i = bsconfig w i)
        \<and> (err = None \<longrightarrow> storedField w' ''image'' = Some (BString digest))
        \<and> (err \<noteq> None \<longrightarrow> bsconfig w' = bsconfig w))
   \<and> (case SaveEnvs envMap poolEnvMap w of
        (err, w') \<Rightarrow>
          (\<forall>f. f \<noteq> ''envs'' \<and> f \<noteq> ''pools'' \<and> f \<noteq> ''_id'' \<longrightarrow> storedField w' f = storedField w f)
          \<and> (bsconfig w bsUniqueID \<noteq> None \<longrightarrow> storedField w' ''_id'' = storedField w ''_id'')
          \<and> (\<forall>i. i \<noteq> bsUniqueID \<longrightarrow> bsconfig w' i = bsconfig w i)
          \<and> (err = None \<longrightarrow>
                storedField w' ''envs'' = Some (BEnvs (Envs (bsConfigFromEnvMaps envMap poolEnvMap w)))
                \<and> storedField w' ''pools''
                    = Some (BPools (Pools (bsConfigFromEnvMaps envMap poolEnvMap w))))
          \<and> (err \<noteq> None \<longrightarrow> bsconfig w' = bsconfig w))"
proof -
  obtain e1 w1 where i: "SaveImage digest w = (e1, w1)" by force
  obtain e2 w2 where e: "SaveEnvs envMap poolEnvMap w = (e2, w2)" by force
  have a: "(\<forall>f. f \<noteq> ''image'' \<and> f \<noteq> ''_id'' \<longrightarrow> storedField w1 f = storedField w f)
        \<and> (bsconfig w bsUniqueID \<noteq> None \<longrightarrow> storedField w1 ''_id'' = storedField w ''_id'')
        \<and> (\<forall>i. i \<noteq> bsUniqueID \<longrightarrow> bsconfig w1 i = bsconfig w i)
        \<and> (e1 = None \<longrightarrow> storedField w1 ''image'' = Some (BString digest))
        \<and> (e1 \<noteq> None \<longrightarrow> bsconfig w1 = bsconfig w)"
    using SaveImage_run [OF i]
    by (cases e1) (auto simp: storedField_def map_add_def split: option.splits)
  have b: "(\<forall>f. f \<noteq> ''envs'' \<and> f \<noteq> ''pools'' \<and> f \<noteq> ''_id'' \<longrightarrow> storedField w2 f = storedField w f)
          \<and> (bsconfig w bsUniqueID \<noteq> None \<longrightarrow> storedField w2 ''_id'' = storedField w ''_id'')
          \<and> (\<forall>i. i \<noteq> bsUniqueID \<longrightarrow> bsconfig w2 i = bsconfig w i)
          \<and> (e2 = None \<longrightarrow>
                storedField w2 ''envs'' = Some (BEnvs (Envs (bsConfigFromEnvMaps envMap poolEnvMap w)))
                \<and> storedField w2 ''pools''
                    = Some (BPools (Pools (bsConfigFromEnvMaps envMap poolEnvMap w))))
          \<and> (e2 \<noteq> None \<longrightarrow> bsconfig w2 = bsconfig w)"
    using SaveEnvs_run [OF e]
    by (cases e2) (auto simp: storedField_def map_add_def split: option.splits)
  from a b show ?thesis unfolding i e by (simp only: prod.case) 
qed


theorem Save_field_scoped_witness:
  "fst (SaveImage ''tsuru/bs@sha256:1b'' storedWorld) = None
   \<and> storedField storedWorld ''token'' = Some (BString ''stored'')
   \<and> storedField (snd (SaveImage ''tsuru/bs@sha256:1b'' storedWorld)) ''token'' = Some (BString ''stored'')
   \<and> storedField (snd (SaveImage ''tsuru/bs@sha256:1b'' storedWorld)) ''image''
       = Some (BString ''tsuru/bs@sha256:1b'')
   \<and> fst (SaveEnvs [(''A'', ''1'')] [] storedWorld) = None
   \<and> storedField (snd (SaveEnvs [(''A'', ''1'')] [] storedWorld)) ''token'' = Some (BString ''stored'')
   \<and> storedField (snd (SaveEnvs [(''A'', ''1'')] [] storedWorld)) ''image''
       = Some (BString ''tsuru/bs@sha256:0a'')
   \<and> storedField (snd (SaveEnvs [(''A'', ''1'')] [] storedWorld)) ''envs''
       = Some (BEnvs [\<lparr>Name = ''A'', Value = ''1''\<rparr>])"
proof -
  have i: "fst (SaveImage ''tsuru/bs@sha256:1b'' storedWorld) = None"
    by (simp add: SaveImage_def UpsertId_def Upsert_def collection_def ask_def mgoUpsert_def
        storedWorld_def emptyWorld_def bsUniqueID_def Close_def emit_def)
  have e: "fst (SaveEnvs [(''A'', ''1'')] [] storedWorld) = None"
    by (simp add: SaveEnvs_def Let_def UpsertId_def Upsert_def collection_def ask_def mgoUpsert_def
        storedWorld_def emptyWorld_def bsUniqueID_def Close_def emit_def)
  have c: "Envs (bsConfigFromEnvMaps [(''A'', ''1'')] [] storedWorld) = [\<lparr>Name = ''A'', Value = ''1''\<rparr>]"
    by (simp add: bsConfigFromEnvMaps_def storedWorld_def emptyWorld_def envOfPair_def)
  have t: "storedField storedWorld ''token'' = Some (BString ''stored'')"
    "storedField storedWorld ''image'' = Some (BString ''tsuru/bs@sha256:0a'')"
    by (simp_all add: storedField_def storedWorld_def emptyWorld_def bsUniqueID_def)
  have n: "''token'' \<noteq> ''image''" "''token'' \<noteq> ''_id''" "''token'' \<noteq> ''envs''" "''token'' \<noteq> ''pools''"
    "''image'' \<noteq> ''envs''" "''image'' \<noteq> ''pools''" "''image'' \<noteq> ''_id''"
    by simp_all
  show ?thesis
    using Save_field_scoped [where digest = "''tsuru/bs@sha256:1b''" and w = storedWorld
        and envMap = "[(''A'', ''1'')]" and poolEnvMap = "[]"] i e c t n
    by (simp add: case_prod_beta)
qed

subsection \<open>Pulling and pinning the image\<close>

lemma NewClient_run:
  assumes "NewClient ep w = (r, w1)"
  shows "trace w1 = trace w @ [DockerNewClient ep r]" "bsconfig w1 = bsconfig w"
    "settings w1 = settings w" "rangeEnvMap w1 = rangeEnvMap w"
proof -
  obtain a w0 where a: "ask w = (a, w0)" by force
  show "trace w1 = trace w @ [DockerNewClient ep r]" "bsconfig w1 = bsconfig w"
    "settings w1 = settings w" "rangeEnvMap w1 = rangeEnvMap w"
    using assms a ask_fields [OF a] by (auto simp: NewClient_def)
qed

lemma PullImage_run:
  assumes "PullImage ep img w = (r, w1)"
  shows "trace w1 = trace w @ [DockerPullImage ep img r]" "bsconfig w1 = bsconfig w"
    "settings w1 = settings w" "rangeEnvMap w1 = rangeEnvMap w"
proof -
  obtain a w0 where a: "ask w = (a, w0)" by force
  show "trace w1 = trace w @ [DockerPullImage ep img r]" "bsconfig w1 = bsconfig w"
    "settings w1 = settings w" "rangeEnvMap w1 = rangeEnvMap w"
    using assms a ask_fields [OF a] by (auto simp: PullImage_def)
qed

lemma SaveImage_trace:
  assumes "SaveImage digest w = (err, w')"
  shows "\<exists>cr ur. trace w' = trace w @ DbConn cr #
                     (if cr = None then [DbUpsert bsUniqueID [] [(''image'', BString digest)] ur, DbClose]
                      else [])
                 \<and> err = (case cr of Some e \<Rightarrow> Some e | None \<Rightarrow> ur)"
proof -
  obtain r1 w1 where c: "collection w = (r1, w1)" by force
  note c' = collection_run [OF c]
  obtain r2 w2 where u: "UpsertId bsUniqueID [(''image'', BString digest)] w1 = (r2, w2)" by force
  note u' = UpsertId_run [OF u]
  show ?thesis
    using assms c c' u u' by (cases r1) (auto simp: SaveImage_def)
qed

lemma SaveImage_stored:
  assumes "SaveImage digest w = (None, w')"
  shows "storedField w' ''image'' = Some (BString digest)"
  using SaveImage_run(2) [OF assms] by (simp add: storedField_def map_add_def)

lemma SaveImage_settings:
  assumes "SaveImage digest w = (err, w')"
  shows "settings w' = settings w" "rangeEnvMap w' = rangeEnvMap w"
proof -
  obtain r1 w1 where c: "collection w = (r1, w1)" by force
  note c' = collection_run [OF c]
  obtain r2 w2 where u: "UpsertId bsUniqueID [(''image'', BString digest)] w1 = (r2, w2)" by force
  note u' = Upsert_run [OF u [unfolded UpsertId_def]]
  show "settings w' = settings w" "rangeEnvMap w' = rangeEnvMap w"
    using assms c c' u u' by (cases r1; auto simp: SaveImage_def)+
qed

lemma first_digest:
  "(let match = FindAllStringSubmatch out 1
    in if length match > 0 then img @ ''@'' @ (match ! 0) ! 1 else img)
   = withFirstDigest img out"
  by (cases "filter (prefix ''Digest: '') (splitLines out)")
     (simp_all add: FindAllStringSubmatch_def digestMatches_def withFirstDigest_def digestValues_def)

lemma pullBsImage_runs:
  assumes "pullBsImage img ep p w = (r, w')"
  shows "(\<exists>err. trace w' = trace w @ [DockerNewClient ep (Some err)] \<and> r = Some err
              \<and> bsconfig w' = bsconfig w)
       \<or> (\<exists>err. trace w' = trace w @ [DockerNewClient ep None, DockerPullImage ep img (Inl err)]
              \<and> r = Some err \<and> bsconfig w' = bsconfig w)
       \<or> (\<exists>out w2. trace w2 = trace w @ [DockerNewClient ep None, DockerPullImage ep img (Inr out)]
              \<and> bsconfig w2 = bsconfig w
              \<and> SaveImage (if shouldPinBsImage img then withFirstDigest img out else img) w2 = (r, w'))"
proof -
  obtain r1 w1 where n: "NewClient ep w = (r1, w1)" by force
  note n' = NewClient_run [OF n]
  obtain r2 w2 where p: "PullImage ep img w1 = (r2, w2)" by force
  note p' = PullImage_run [OF p]
  show ?thesis
  proof (cases r1)
    case (Some err)
    with assms n n' show ?thesis by (auto simp: pullBsImage_def)
  next
    case None
    show ?thesis
    proof (cases r2)
      case (Inl err)
      with assms n n' None p p' show ?thesis by (auto simp: pullBsImage_def)
    next
      case (Inr out)
      have "SaveImage (if shouldPinBsImage img then withFirstDigest img out else img) w2 = (r, w')"
        using assms n None p Inr unfolding pullBsImage_def first_digest [symmetric]
        by simp
      with n' None p' Inr show ?thesis
        by (intro disjI2 exI [of _ out] exI [of _ w2] conjI) simp_all
    qed
  qed
qed


text \<open>
  C6, as the specification states it, fails: \<open>pullBsImage\<close> takes the first match of
  \<open>digestRegexp\<close> (\<open>FindAllStringSubmatch(_, 1)\<close>, then \<open>match[0][1]\<close>), not the last.
  With the two digest lines of \<open>twoDigests\<close> the reference saved ends in \<open>sha256:aa\<close>, the
  value of the first line, and not in \<open>sha256:bb\<close>, the value of the last.
\<close>

theorem pullBsImage_last_digest_counterexample:
  "shouldPinBsImage ''tsuru/bs''
   \<and> fst (pullBsImage ''tsuru/bs'' ''http://n1:2375'' someProvisioner
            (emptyWorld\<lparr>script := [Inr [], Inr twoDigests]\<rparr>)) = None
   \<and> storedField (snd (pullBsImage ''tsuru/bs'' ''http://n1:2375'' someProvisioner
                          (emptyWorld\<lparr>script := [Inr [], Inr twoDigests]\<rparr>))) ''image''
       = Some (BString ''tsuru/bs@sha256:aa'')
   \<and> withLastDigest ''tsuru/bs'' twoDigests = ''tsuru/bs@sha256:bb''
   \<and> storedField (snd (pullBsImage ''tsuru/bs'' ''http://n1:2375'' someProvisioner
                          (emptyWorld\<lparr>script := [Inr [], Inr twoDigests]\<rparr>))) ''image''
       \<noteq> Some (BString (withLastDigest ''tsuru/bs'' twoDigests))"
proof -
  let ?w = "emptyWorld\<lparr>script := [Inr [], Inr twoDigests]\<rparr>"
  have pin: "shouldPinBsImage ''tsuru/bs''" by code_simp
  have "FindAllStringSubmatch twoDigests 1 = [[''Digest: sha256:aa'', ''sha256:aa'']]"
    by code_simp
  then have m: "FindAllStringSubmatch twoDigests (Suc 0) = [[''Digest: sha256:aa'', ''sha256:aa'']]"
    by simp
  have l: "withLastDigest ''tsuru/bs'' twoDigests = ''tsuru/bs@sha256:bb''"
    by code_simp
  have run: "pullBsImage ''tsuru/bs'' ''http://n1:2375'' someProvisioner ?w
             = SaveImage ''tsuru/bs@sha256:aa'' (snd (PullImage ''http://n1:2375'' ''tsuru/bs''
                  (snd (NewClient ''http://n1:2375'' ?w))))"
    by (simp add: pullBsImage_def pin m NewClient_def PullImage_def ask_def answerErr_def
        emptyWorld_def emit_def)
  have r: "fst (pullBsImage ''tsuru/bs'' ''http://n1:2375'' someProvisioner ?w) = None"
    unfolding run
    by (simp add: SaveImage_def UpsertId_def Upsert_def collection_def mgoUpsert_def
        NewClient_def PullImage_def ask_def answerErr_def emptyWorld_def emit_def Close_def)
  have st: "storedField (snd (pullBsImage ''tsuru/bs'' ''http://n1:2375'' someProvisioner ?w)) ''image''
            = Some (BString ''tsuru/bs@sha256:aa'')"
    unfolding run
    by (simp add: SaveImage_def UpsertId_def Upsert_def collection_def mgoUpsert_def
        NewClient_def PullImage_def ask_def answerErr_def emptyWorld_def emit_def Close_def
        storedField_def bsUniqueID_def)
  from pin r st l show ?thesis by simp
qed

text \<open>
  C6, amended. When the pull succeeds with the output \<open>out\<close>, \<open>pullBsImage\<close> saves the
  reference to the configuration record: for a reference that is to be pinned, the
  reference with \<open>@<value>\<close> appended, the value taken from the first line of \<open>out\<close> that
  matches \<open>Digest: <value>\<close>, and the reference itself when no line matches, which is
  no error; for any other reference, the reference itself. The result of
  \<open>pullBsImage\<close> is then the result of \<open>SaveImage\<close>.
\<close>

theorem pullBsImage_pins_first_digest:
  assumes "pullBsImage img ep p w = (r, w')"
    and "trace w' = trace w @ evs"
    and "DockerPullImage ep img (Inr out) \<in> set evs"
  shows "\<exists>saved cr ur.
           saved = (if shouldPinBsImage img then withFirstDigest img out else img)
           \<and> (digestValues out = [] \<longrightarrow> saved = img)
           \<and> (\<forall>v vs. shouldPinBsImage img \<and> digestValues out = v # vs \<longrightarrow> saved = img @ ''@'' @ v)
           \<and> evs = [DockerNewClient ep None, DockerPullImage ep img (Inr out), DbConn cr]
                   @ (if cr = None
                      then [DbUpsert bsUniqueID [] [(''image'', BString saved)] ur, DbClose]
                      else [])
           \<and> r = (case cr of Some e \<Rightarrow> Some e | None \<Rightarrow> ur)
           \<and> (r = None \<longrightarrow> storedField w' ''image'' = Some (BString saved))"
proof -
  define saved where "saved = (if shouldPinBsImage img then withFirstDigest img out else img)"
  have evs: "evs = es" if "trace w' = trace w @ es" for es
    using that assms(2) by simp
  have none: "saved = img" if "digestValues out = []"
    using that by (simp add: saved_def withFirstDigest_def)
  have some: "saved = img @ ''@'' @ v" if "shouldPinBsImage img" "digestValues out = v # vs" for v vs
    using that by (simp add: saved_def withFirstDigest_def)
  from pullBsImage_runs [OF assms(1)] show ?thesis
  proof (elim disjE exE conjE)
    fix err
    assume "trace w' = trace w @ [DockerNewClient ep (Some err)]"
    from evs [OF this] assms(3) show ?thesis by simp
  next
    fix err
    assume "trace w' = trace w @ [DockerNewClient ep None, DockerPullImage ep img (Inl err)]"
    from evs [OF this] assms(3) show ?thesis by simp
  next
    fix out' w2
    assume t2: "trace w2 = trace w @ [DockerNewClient ep None, DockerPullImage ep img (Inr out')]"
      and save: "SaveImage (if shouldPinBsImage img then withFirstDigest img out' else img) w2 = (r, w')"
    obtain cr ur where tr: "trace w' = trace w2 @ DbConn cr #
          (if cr = None
           then [DbUpsert bsUniqueID []
                   [(''image'', BString (if shouldPinBsImage img then withFirstDigest img out' else img))] ur,
                 DbClose]
           else [])"
      and r: "r = (case cr of Some e \<Rightarrow> Some e | None \<Rightarrow> ur)"
      using SaveImage_trace [OF save] by blast
    have e: "evs = [DockerNewClient ep None, DockerPullImage ep img (Inr out'), DbConn cr]
          @ (if cr = None
             then [DbUpsert bsUniqueID []
                     [(''image'', BString (if shouldPinBsImage img then withFirstDigest img out' else img))] ur,
                   DbClose]
             else [])"
      using tr t2 assms(2) by simp
    have out: "out' = out" using assms(3) unfolding e by (auto split: if_splits)
    have st: "storedField w' ''image'' = Some (BString saved)" if "r = None"
      using SaveImage_stored [of _ w2 w'] save that out by (simp add: saved_def)
    have e2: "evs = [DockerNewClient ep None, DockerPullImage ep img (Inr out), DbConn cr]
          @ (if cr = None then [DbUpsert bsUniqueID [] [(''image'', BString saved)] ur, DbClose]
             else [])"
      using e out by (simp add: saved_def)
    show ?thesis
    proof (rule exI [of _ saved], rule exI [of _ cr], rule exI [of _ ur], intro conjI)
      show "saved = (if shouldPinBsImage img then withFirstDigest img out else img)"
        by (rule saved_def)
      show "digestValues out = [] \<longrightarrow> saved = img" using none by blast
      show "\<forall>v vs. shouldPinBsImage img \<and> digestValues out = v # vs \<longrightarrow> saved = img @ ''@'' @ v"
        using some by blast
      show "evs = [DockerNewClient ep None, DockerPullImage ep img (Inr out), DbConn cr]
          @ (if cr = None then [DbUpsert bsUniqueID [] [(''image'', BString saved)] ur, DbClose]
             else [])"
        by (rule e2)
      show "r = (case cr of Some e \<Rightarrow> Some e | None \<Rightarrow> ur)" by (rule r)
      show "r = None \<longrightarrow> storedField w' ''image'' = Some (BString saved)" using st by blast
    qed
  qed
qed

theorem pullBsImage_pins_first_digest_witness:
  "fst (pullBsImage ''tsuru/bs'' ''http://n1:2375'' someProvisioner
          (emptyWorld\<lparr>script := [Inr [], Inr twoDigests]\<rparr>)) = None
   \<and> shouldPinBsImage ''tsuru/bs''
   \<and> digestValues twoDigests = [''sha256:aa'', ''sha256:bb'']
   \<and> trace (snd (pullBsImage ''tsuru/bs'' ''http://n1:2375'' someProvisioner
                    (emptyWorld\<lparr>script := [Inr [], Inr twoDigests]\<rparr>)))
       = [DockerNewClient ''http://n1:2375'' None,
          DockerPullImage ''http://n1:2375'' ''tsuru/bs'' (Inr twoDigests),
          DbConn None,
          DbUpsert bsUniqueID [] [(''image'', BString ''tsuru/bs@sha256:aa'')] None,
          DbClose]
   \<and> (\<exists>saved. saved = ''tsuru/bs@sha256:aa''
          \<and> storedField (snd (pullBsImage ''tsuru/bs'' ''http://n1:2375'' someProvisioner
                                 (emptyWorld\<lparr>script := [Inr [], Inr twoDigests]\<rparr>))) ''image''
              = Some (BString saved))"
proof -
  let ?w = "emptyWorld\<lparr>script := [Inr [], Inr twoDigests]\<rparr>"
  let ?run = "pullBsImage ''tsuru/bs'' ''http://n1:2375'' someProvisioner ?w"
  let ?evs = "[DockerNewClient ''http://n1:2375'' None,
               DockerPullImage ''http://n1:2375'' ''tsuru/bs'' (Inr twoDigests),
               DbConn None,
               DbUpsert bsUniqueID [] [(''image'', BString ''tsuru/bs@sha256:aa'')] None,
               DbClose]"
  have pin: "shouldPinBsImage ''tsuru/bs''" by code_simp
  have "FindAllStringSubmatch twoDigests 1 = [[''Digest: sha256:aa'', ''sha256:aa'']]"
    by code_simp
  then have m: "FindAllStringSubmatch twoDigests (Suc 0) = [[''Digest: sha256:aa'', ''sha256:aa'']]"
    by simp
  have dv: "digestValues twoDigests = [''sha256:aa'', ''sha256:bb'']" by code_simp
  have run: "?run = SaveImage ''tsuru/bs@sha256:aa'' (snd (PullImage ''http://n1:2375'' ''tsuru/bs''
                  (snd (NewClient ''http://n1:2375'' ?w))))"
    by (simp add: pullBsImage_def pin m NewClient_def PullImage_def ask_def answerErr_def
        emptyWorld_def emit_def)
  have r: "fst ?run = None"
    unfolding run
    by (simp add: SaveImage_def UpsertId_def Upsert_def collection_def mgoUpsert_def
        NewClient_def PullImage_def ask_def answerErr_def emptyWorld_def emit_def Close_def)
  have tr: "trace (snd ?run) = trace ?w @ ?evs"
    unfolding run
    by (simp add: SaveImage_def UpsertId_def Upsert_def collection_def mgoUpsert_def
        NewClient_def PullImage_def ask_def answerErr_def emptyWorld_def emit_def Close_def)
  have t0: "trace ?w = []" by (simp add: emptyWorld_def)
  have p: "?run = (fst ?run, snd ?run)" by simp
  have mem: "DockerPullImage ''http://n1:2375'' ''tsuru/bs'' (Inr twoDigests) \<in> set ?evs" by simp
  show ?thesis
    using pullBsImage_pins_first_digest [OF p tr mem] r tr t0 pin dv
    by (auto simp: withFirstDigest_def)
qed

subsection \<open>Creating the container\<close>

lemma quiet_refl: "quiet w w"
  by (simp add: quiet_def)

lemma quiet_trans: "quiet w w1 \<Longrightarrow> quiet w1 w2 \<Longrightarrow> quiet w w2"
  by (auto simp: quiet_def)

lemma quiet_step:
  "trace w1 = trace w @ [ev] \<Longrightarrow> \<not> isCreate ev \<Longrightarrow> settings w1 = settings w
   \<Longrightarrow> rangeEnvMap w1 = rangeEnvMap w \<Longrightarrow> quiet w w1"
  by (simp add: quiet_def)

lemma quiet_collection: "collection w = (r, w1) \<Longrightarrow> quiet w w1"
  using collection_run [of w r w1] by (auto intro: quiet_step)

lemma quiet_Close: "quiet w (Close w)"
  by (rule quiet_step [where ev = DbClose]) simp_all

lemma quiet_NewClient: "NewClient ep w = (r, w1) \<Longrightarrow> quiet w w1"
  using NewClient_run [of ep w r w1] by (auto intro: quiet_step)

lemma quiet_FindIdOne: "FindIdOne i w = (r, w1) \<Longrightarrow> quiet w w1"
  using FindIdOne_run(1-4) [of i w r w1] by (auto intro: quiet_step)

lemma quiet_LoadConfig:
  assumes "LoadConfig w = (r, w')"
  shows "quiet w w'"
proof -
  obtain r1 w1 where c: "collection w = (r1, w1)" by force
  obtain r2 w2 where f: "FindIdOne bsUniqueID w1 = (r2, w2)" by force
  show ?thesis
    using assms c f quiet_collection [OF c] quiet_FindIdOne [OF f] quiet_Close [of w2]
    by (cases r1) (auto simp: LoadConfig_def intro: quiet_trans)
qed

lemma quiet_getToken:
  assumes "getToken conf w = (r, conf', w')"
  shows "quiet w w'"
proof (cases "Token conf = []")
  case False
  with assms show ?thesis by (simp add: getToken_def quiet_refl)
next
  case True
  from getToken_runs [OF True assms] show ?thesis
    unfolding quiet_def tokenUpsert_def by (elim conjE disjE exE) simp_all
qed

lemma quiet_SaveImage:
  assumes "SaveImage digest w = (err, w')"
  shows "quiet w w'"
  using SaveImage_trace [OF assms] SaveImage_settings [OF assms]
  by (auto simp: quiet_def)

lemma quiet_pullBsImage:
  assumes "pullBsImage img ep p w = (r, w')"
  shows "quiet w w'"
proof -
  obtain r1 w1 where n: "NewClient ep w = (r1, w1)" by force
  obtain r2 w2 where p: "PullImage ep img w1 = (r2, w2)" by force
  have q2: "quiet w1 w2" using PullImage_run [OF p] by (auto intro: quiet_step)
  show ?thesis
  proof (cases r1)
    case (Some err)
    with assms n quiet_NewClient [OF n] show ?thesis by (simp add: pullBsImage_def)
  next
    case None
    show ?thesis
    proof (cases r2)
      case (Inl err)
      with assms n None p quiet_NewClient [OF n] q2 show ?thesis
        by (auto simp: pullBsImage_def intro: quiet_trans)
    next
      case (Inr out)
      then obtain d where "SaveImage d w2 = (r, w')"
        using assms n None p by (auto simp: pullBsImage_def)
      from quiet_SaveImage [OF this] quiet_NewClient [OF n] q2 show ?thesis
        by (blast intro: quiet_trans)
    qed
  qed
qed

lemma EnvListForEndpoint_world:
  assumes "EnvListForEndpoint conf ep pool w = (r, conf', w')"
  shows "\<exists>t. getToken conf w = (t, conf', w')"
  using assms
  by (auto simp: EnvListForEndpoint_def Let_def split: prod.splits sum.splits option.splits)

lemma quiet_EnvListForEndpoint:
  assumes "EnvListForEndpoint conf ep pool w = (r, conf', w')"
  shows "quiet w w'"
  using EnvListForEndpoint_world [OF assms] quiet_getToken by blast


lemma ClientCreateContainer_run:
  assumes "ClientCreateContainer ep opts w = (r, w1)"
  shows "trace w1 = trace w @ [DockerCreateContainer ep opts r]"
proof -
  obtain a w0 where a: "ask w = (a, w0)" by force
  show ?thesis using assms a ask_fields [OF a] by (auto simp: ClientCreateContainer_def)
qed

lemma RemoveContainer_run:
  assumes "RemoveContainer ep ident force w = (r, w1)"
  shows "trace w1 = trace w @ [DockerRemoveContainer ep ident force r]"
proof -
  obtain a w0 where a: "ask w = (a, w0)" by force
  show ?thesis using assms a ask_fields [OF a] by (auto simp: RemoveContainer_def)
qed

lemma StartContainer_run:
  assumes "StartContainer ep ident hc w = (r, w1)"
  shows "trace w1 = trace w @ [DockerStartContainer ep ident hc r]"
proof -
  obtain a w0 where a: "ask w = (a, w0)" by force
  show ?thesis using assms a ask_fields [OF a] by (auto simp: StartContainer_def)
qed

lemma launch_runs:
  assumes "launch ep opts hc relaunch w = (r, w')"
  shows "\<exists>c1 post. trace w' = trace w @ DockerCreateContainer ep opts c1 # post \<and>
     (if relaunch \<and> c1 = Inl ErrContainerAlreadyExists
      then (\<exists>err. post = [DockerRemoveContainer ep (Opts_Name opts) True (Some err)] \<and> r = Some err)
         \<or> (\<exists>err. post = [DockerRemoveContainer ep (Opts_Name opts) True None,
                            DockerCreateContainer ep opts (Inl err)] \<and> r = Some err)
         \<or> (\<exists>ident sr. post = [DockerRemoveContainer ep (Opts_Name opts) True None,
                                 DockerCreateContainer ep opts (Inr ident),
                                 DockerStartContainer ep ident hc sr] \<and> r = sr)
      else (\<exists>err. c1 = Inl err \<and> post = [] \<and> r = Some err)
         \<or> (\<exists>ident sr. c1 = Inr ident \<and> post = [DockerStartContainer ep ident hc sr] \<and> r = sr))"
proof -
  obtain c1 w1 where c: "ClientCreateContainer ep opts w = (c1, w1)" by force
  note c' = ClientCreateContainer_run [OF c]
  show ?thesis
  proof (cases "relaunch \<and> c1 = Inl ErrContainerAlreadyExists")
    case True
    obtain rr w2 where rm: "RemoveContainer ep (Opts_Name opts) True w1 = (rr, w2)" by force
    note rm' = RemoveContainer_run [OF rm]
    show ?thesis
    proof (cases rr)
      case (Some err)
      with assms c c' True rm rm' show ?thesis
        by (intro exI [of _ c1]) (auto simp: launch_def)
    next
      case None
      obtain c2 w3 where c2: "ClientCreateContainer ep opts w2 = (c2, w3)" by force
      note c2' = ClientCreateContainer_run [OF c2]
      show ?thesis
      proof (cases c2)
        case (Inl err)
        with assms c c' True rm rm' None c2 c2' show ?thesis
          by (intro exI [of _ c1]) (auto simp: launch_def)
      next
        case (Inr ident)
        obtain sr w4 where st: "StartContainer ep ident hc w3 = (sr, w4)" by force
        note st' = StartContainer_run [OF st]
        from assms c c' True rm rm' None c2 c2' Inr st st' show ?thesis
          by (intro exI [of _ c1]) (auto simp: launch_def)
      qed
    qed
  next
    case False
    show ?thesis
    proof (cases c1)
      case (Inl err)
      with assms c c' False show ?thesis
        by (intro exI [of _ c1]) (auto simp: launch_def)
    next
      case (Inr ident)
      obtain sr w4 where st: "StartContainer ep ident hc w1 = (sr, w4)" by force
      note st' = StartContainer_run [OF st]
      from assms c c' False Inr st st' show ?thesis
        by (intro exI [of _ c1]) (auto simp: launch_def)
    qed
  qed
qed

lemma createWith_reaches:
  assumes "createWith conf ep pool p relaunch w = (r, w')"
  shows "quiet w w'
       \<or> (\<exists>w2 opts. quiet w w2 \<and> Opts_Name opts = ''big-sibling''
              \<and> launch ep opts (Opts_HostConfig opts) relaunch w2 = (r, w'))"
proof -
  obtain r1 w1 where pl: "pullBsImage (getImage (Some conf) w) ep p w = (r1, w1)" by force
  note q1 = quiet_pullBsImage [OF pl]
  obtain r2 conf2 w2 where el: "EnvListForEndpoint conf ep pool w1 = (r2, conf2, w2)"
    by (cases "EnvListForEndpoint conf ep pool w1") auto
  note q2 = quiet_trans [OF q1 quiet_EnvListForEndpoint [OF el]]
  show ?thesis
  proof (cases r1)
    case (Some err)
    with assms pl q1 show ?thesis by (simp add: createWith_def Let_def)
  next
    case None
    show ?thesis
    proof (cases r2)
      case (Inl err)
      with assms pl None el q2 show ?thesis by (simp add: createWith_def Let_def)
    next
      case (Inr env)
      define hc where "hc =
        \<lparr>RestartPolicy = ''always'', Privileged = True, NetworkMode = ''host'',
         Binds = (if docker_bs_socket (settings w1) \<noteq> []
                  then [docker_bs_socket (settings w1) @ '':/var/run/docker.sock:rw''] else [])\<rparr>"
      define opts where "opts =
        \<lparr>Opts_Name = ''big-sibling'', Opts_HostConfig = hc,
         Opts_Image = getImage (Some conf) w, Opts_Env = env\<rparr>"
      have "launch ep opts (Opts_HostConfig opts) relaunch w2 = (r, w')"
        using assms pl None el Inr by (simp add: createWith_def Let_def opts_def hc_def)
      moreover have "Opts_Name opts = ''big-sibling''" by (simp add: opts_def)
      ultimately show ?thesis using q2 by blast
    qed
  qed
qed

lemma CreateContainer_reaches:
  assumes "CreateContainer ep pool p relaunch w = (r, w')"
  shows "quiet w w'
       \<or> (\<exists>w2 opts. quiet w w2 \<and> Opts_Name opts = ''big-sibling''
              \<and> launch ep opts (Opts_HostConfig opts) relaunch w2 = (r, w'))"
proof -
  obtain r1 w1 where n: "NewClient ep w = (r1, w1)" by force
  note q1 = quiet_NewClient [OF n]
  obtain r2 w2 where l: "LoadConfig w1 = (r2, w2)" by force
  note q2 = quiet_trans [OF q1 quiet_LoadConfig [OF l]]
  show ?thesis
  proof (cases r1)
    case (Some err)
    with assms n q1 show ?thesis by (simp add: CreateContainer_def)
  next
    case None
    have "\<exists>conf. r2 \<noteq> Inl ErrNotFound \<and> (\<exists>err. r2 = Inl err) \<and> w' = w2
        \<or> createWith conf ep pool p relaunch w2 = (r, w')"
      using assms n None l by (auto simp: CreateContainer_def split: sum.splits if_splits)
    then obtain conf where "w' = w2 \<or> createWith conf ep pool p relaunch w2 = (r, w')"
      by blast
    then show ?thesis
    proof
      assume "w' = w2"
      with q2 show ?thesis by simp
    next
      assume "createWith conf ep pool p relaunch w2 = (r, w')"
      from createWith_reaches [OF this] q2 show ?thesis
        by (blast intro: quiet_trans)
    qed
  qed
qed

lemma first_create_unique:
  assumes "xs @ a # ys = xs' @ a' # ys'"
    and "\<forall>e\<in>set xs. \<not> isCreate e" "\<forall>e\<in>set xs'. \<not> isCreate e" "isCreate a" "isCreate a'"
  shows "xs = xs' \<and> a = a' \<and> ys = ys'"
  using assms
proof (induction xs arbitrary: xs')
  case Nil
  then show ?case by (cases xs') auto
next
  case (Cons x xs)
  then show ?case by (cases xs') auto
qed


text \<open>
  C7. In a run of \<open>CreateContainer\<close> whose first creation call fails because the
  container exists: without \<open>relaunch\<close> no call follows and that error is the result;
  with \<open>relaunch\<close> the next call removes \<open>big-sibling\<close> with force, and then either the
  removal failed and its error is the result, or one more creation call follows, whose
  error is the result when it fails and whose container is started when it succeeds.
  No run makes a third creation call.
\<close>

theorem CreateContainer_already_exists:
  assumes "CreateContainer ep pool p relaunch w = (r, w')"
    and "trace w' = trace w @ pre @ DockerCreateContainer ep' opts (Inl ErrContainerAlreadyExists) # post"
    and "\<forall>e\<in>set pre. \<not> isCreate e"
  shows "ep' = ep \<and> Opts_Name opts = ''big-sibling''
         \<and> (if relaunch
             then (\<exists>err. post = [DockerRemoveContainer ep ''big-sibling'' True (Some err)]
                      \<and> r = Some err)
                \<or> (\<exists>err. post = [DockerRemoveContainer ep ''big-sibling'' True None,
                                   DockerCreateContainer ep opts (Inl err)]
                      \<and> r = Some err)
                \<or> (\<exists>ident sr. post = [DockerRemoveContainer ep ''big-sibling'' True None,
                                        DockerCreateContainer ep opts (Inr ident),
                                        DockerStartContainer ep ident (Opts_HostConfig opts) sr]
                      \<and> r = sr)
             else post = [] \<and> r = Some ErrContainerAlreadyExists)"
proof -
  from CreateContainer_reaches [OF assms(1)] show ?thesis
  proof
    assume "quiet w w'"
    then obtain evs where "trace w' = trace w @ evs" "\<forall>e\<in>set evs. \<not> isCreate e"
      by (auto simp: quiet_def)
    with assms(2) show ?thesis by auto
  next
    assume "\<exists>w2 opts. quiet w w2 \<and> Opts_Name opts = ''big-sibling''
              \<and> launch ep opts (Opts_HostConfig opts) relaunch w2 = (r, w')"
    then obtain w2 opts2 where q: "quiet w w2" and name: "Opts_Name opts2 = ''big-sibling''"
      and l: "launch ep opts2 (Opts_HostConfig opts2) relaunch w2 = (r, w')"
      by blast
    from q obtain pre2 where pre2: "trace w2 = trace w @ pre2" "\<forall>e\<in>set pre2. \<not> isCreate e"
      by (auto simp: quiet_def)
    from launch_runs [OF l] obtain c1 post2
      where t: "trace w' = trace w2 @ DockerCreateContainer ep opts2 c1 # post2"
        and rest: "if relaunch \<and> c1 = Inl ErrContainerAlreadyExists
          then (\<exists>err. post2 = [DockerRemoveContainer ep (Opts_Name opts2) True (Some err)] \<and> r = Some err)
             \<or> (\<exists>err. post2 = [DockerRemoveContainer ep (Opts_Name opts2) True None,
                                DockerCreateContainer ep opts2 (Inl err)] \<and> r = Some err)
             \<or> (\<exists>ident sr. post2 = [DockerRemoveContainer ep (Opts_Name opts2) True None,
                                     DockerCreateContainer ep opts2 (Inr ident),
                                     DockerStartContainer ep ident (Opts_HostConfig opts2) sr] \<and> r = sr)
          else (\<exists>err. c1 = Inl err \<and> post2 = [] \<and> r = Some err)
             \<or> (\<exists>ident sr. c1 = Inr ident
                   \<and> post2 = [DockerStartContainer ep ident (Opts_HostConfig opts2) sr] \<and> r = sr)"
      by blast
    have "pre @ DockerCreateContainer ep' opts (Inl ErrContainerAlreadyExists) # post
          = pre2 @ DockerCreateContainer ep opts2 c1 # post2"
      using assms(2) t pre2(1) by simp
    from first_create_unique [OF this assms(3) pre2(2)]
    have same: "ep' = ep" "opts = opts2" "c1 = Inl ErrContainerAlreadyExists" "post = post2"
      by auto
    show ?thesis
    proof (cases relaunch)
      case True
      with rest same name show ?thesis by simp
    next
      case False
      with rest same name show ?thesis by auto
    qed
  qed
qed

text \<open>The node \<open>busyNode\<close>, with and without \<open>relaunch\<close>.\<close>

theorem CreateContainer_already_exists_witness:
  "(\<forall>e\<in>set busyPre. \<not> isCreate e) = True
   \<and> fst (CreateContainer ''http://n1:2375'' ''p1'' someProvisioner False busyNode)
       = Some ErrContainerAlreadyExists
   \<and> trace (snd (CreateContainer ''http://n1:2375'' ''p1'' someProvisioner False busyNode))
       = busyPre @ [DockerCreateContainer ''http://n1:2375'' busyOpts (Inl ErrContainerAlreadyExists)]
   \<and> fst (CreateContainer ''http://n1:2375'' ''p1'' someProvisioner True busyNode) = None
   \<and> (\<exists>post. trace (snd (CreateContainer ''http://n1:2375'' ''p1'' someProvisioner True busyNode))
               = busyPre @ DockerCreateContainer ''http://n1:2375'' busyOpts (Inl ErrContainerAlreadyExists)
                   # post
             \<and> post = [DockerRemoveContainer ''http://n1:2375'' ''big-sibling'' True None,
                        DockerCreateContainer ''http://n1:2375'' busyOpts (Inr ''c0ffee''),
                        DockerStartContainer ''http://n1:2375'' ''c0ffee'' (Opts_HostConfig busyOpts) None])"
proof -
  let ?no = "CreateContainer ''http://n1:2375'' ''p1'' someProvisioner False busyNode"
  let ?re = "CreateContainer ''http://n1:2375'' ''p1'' someProvisioner True busyNode"
  let ?ae = "DockerCreateContainer ''http://n1:2375'' busyOpts (Inl ErrContainerAlreadyExists)"
  let ?post = "[DockerRemoveContainer ''http://n1:2375'' ''big-sibling'' True None,
                DockerCreateContainer ''http://n1:2375'' busyOpts (Inr ''c0ffee''),
                DockerStartContainer ''http://n1:2375'' ''c0ffee'' (Opts_HostConfig busyOpts) None]"
  have pre: "\<forall>e\<in>set busyPre. \<not> isCreate e" by code_simp
  have t0: "trace busyNode = []" by code_simp
  have n1: "?no = (fst ?no, snd ?no)" and r1: "?re = (fst ?re, snd ?re)" by simp_all
  have n2: "trace (snd ?no) = busyPre @ [?ae]" by code_simp
  have r2: "trace (snd ?re) = busyPre @ ?ae # ?post" by code_simp
  have n3: "trace (snd ?no) = trace busyNode @ busyPre @ ?ae # []" using n2 t0 by simp
  have r3: "trace (snd ?re) = trace busyNode @ busyPre @ ?ae # ?post" using r2 t0 by simp
  have rr: "fst ?re = None" by code_simp
  show ?thesis
    using CreateContainer_already_exists [OF n1 n3 pre] CreateContainer_already_exists [OF r1 r3 pre]
      pre n2 r2 rr
    by simp
qed

subsection \<open>Recreating the containers of the cluster\<close>

lemma launch_extends:
  assumes "launch ep opts hc relaunch w = (r, w')"
  shows "\<exists>evs. trace w' = trace w @ evs"
  using launch_runs [OF assms] by blast

lemma CreateContainer_first:
  assumes "CreateContainer ep pool p relaunch w = (r, w')"
  shows "\<exists>r0 evs. trace w' = trace w @ DockerNewClient ep r0 # evs"
proof -
  obtain r1 w1 where n: "NewClient ep w = (r1, w1)" by force
  note n' = NewClient_run(1) [OF n]
  obtain r2 w2 where l: "LoadConfig w1 = (r2, w2)" by force
  from quiet_LoadConfig [OF l] obtain e2 where e2: "trace w2 = trace w1 @ e2"
    by (auto simp: quiet_def)
  show ?thesis
  proof (cases r1)
    case (Some err)
    with assms n n' show ?thesis by (simp add: CreateContainer_def)
  next
    case None
    have "\<exists>conf. w' = w2 \<or> createWith conf ep pool p relaunch w2 = (r, w')"
      using assms n None l by (auto simp: CreateContainer_def split: sum.splits if_splits)
    then obtain conf where "w' = w2 \<or> createWith conf ep pool p relaunch w2 = (r, w')"
      by blast
    then have "\<exists>e3. trace w' = trace w2 @ e3"
    proof
      assume "w' = w2"
      then show ?thesis by simp
    next
      assume "createWith conf ep pool p relaunch w2 = (r, w')"
      from createWith_reaches [OF this] show ?thesis
      proof (elim disjE exE conjE)
        assume "quiet w2 w'"
        then show ?thesis by (auto simp: quiet_def)
      next
        fix w3 opts
        assume q: "quiet w2 w3" and l: "launch ep opts (Opts_HostConfig opts) relaunch w3 = (r, w')"
        from q obtain e where "trace w3 = trace w2 @ e" by (auto simp: quiet_def)
        moreover from launch_extends [OF l] obtain e' where "trace w' = trace w3 @ e'" by blast
        ultimately show ?thesis by simp
      qed
    qed
    with n' e2 show ?thesis by auto
  qed
qed

lemma worker_run:
  assumes "worker p nodes i errChan w = (r, errChan', w')"
  shows "errChan' = errChan @ (case r of None \<Rightarrow> [] | Some err \<Rightarrow>
            [Errorf (failedMsg (Address (nodes ! i))
                       (case Metadata (nodes ! i) ''pool'' of None \<Rightarrow> [] | Some v \<Rightarrow> v) err)])"
    and "\<exists>evs. trace w' = trace w @ evs"
    and "\<exists>r0. DockerNewClient (Address (nodes ! i)) r0 \<in> set (trace w')"
proof -
  define pool where "pool = (case Metadata (nodes ! i) ''pool'' of None \<Rightarrow> [] | Some v \<Rightarrow> v)"
  define w1 where "w1 = emit (LogDebug (recreatingMsg (Address (nodes ! i)) pool)) w"
  obtain r2 w2 where c: "CreateContainer (Address (nodes ! i)) pool p True w1 = (r2, w2)" by force
  from CreateContainer_first [OF c] obtain r0 evs
    where t: "trace w2 = trace w1 @ DockerNewClient (Address (nodes ! i)) r0 # evs" by blast
  have run: "(r, errChan', w') = (case r2 of None \<Rightarrow> (None, errChan, w2)
      | Some err \<Rightarrow> (Some err, errChan @ [Errorf (failedMsg (Address (nodes ! i)) pool err)],
          emit (LogError (failedMsg (Address (nodes ! i)) pool err)) w2))"
    using assms c
    by (cases r2) (auto simp: worker_def Let_def pool_def [symmetric] w1_def [symmetric])
  show "errChan' = errChan @ (case r of None \<Rightarrow> [] | Some err \<Rightarrow>
            [Errorf (failedMsg (Address (nodes ! i))
                       (case Metadata (nodes ! i) ''pool'' of None \<Rightarrow> [] | Some v \<Rightarrow> v) err)])"
    using run by (cases r2) (auto simp: pool_def)
  show "\<exists>evs. trace w' = trace w @ evs"
    using run t by (cases r2) (auto simp: w1_def)
  show "\<exists>r0. DockerNewClient (Address (nodes ! i)) r0 \<in> set (trace w')"
    using run t by (cases r2) (auto simp: w1_def)
qed

lemma runWorkers_run:
  assumes "runWorkers p nodes sched errChan w = (rs, errChan', w')"
  shows "length rs = length sched
       \<and> length errChan' = length errChan + length (filter (\<lambda>r. r \<noteq> None) rs)
       \<and> (\<exists>more. errChan' = errChan @ more)
       \<and> (\<exists>evs. trace w' = trace w @ evs)
       \<and> (\<forall>i\<in>set sched. \<exists>r0. DockerNewClient (Address (nodes ! i)) r0 \<in> set (trace w'))"
  using assms
proof (induction sched arbitrary: errChan w rs errChan' w')
  case Nil
  then show ?case by simp
next
  case (Cons i sched)
  obtain r1 ch1 w1 where wk: "worker p nodes i errChan w = (r1, ch1, w1)"
    by (cases "worker p nodes i errChan w") auto
  obtain rs2 ch2 w2 where rw: "runWorkers p nodes sched ch1 w1 = (rs2, ch2, w2)"
    by (cases "runWorkers p nodes sched ch1 w1") auto
  from Cons.prems wk rw have eq: "rs = r1 # rs2" "errChan' = ch2" "w' = w2" by auto
  note ih = Cons.IH [OF rw]
  note w1 = worker_run [OF wk]
  from w1(2) obtain e1 where e1: "trace w1 = trace w @ e1" by blast
  from ih obtain e2 where e2: "trace w2 = trace w1 @ e2" by blast
  from w1(3) obtain r0 where r0: "DockerNewClient (Address (nodes ! i)) r0 \<in> set (trace w1)" by blast
  have first: "\<exists>r0. DockerNewClient (Address (nodes ! i)) r0 \<in> set (trace w2)"
    using r0 e2 by auto
  have len: "length ch1 = length errChan + (if r1 = None then 0 else 1)"
    using w1(1) by (cases r1) auto
  show ?case
    unfolding eq using ih w1(1) e1 e2 first len by (cases r1) auto
qed


lemma worker_task:
  assumes "worker p nodes i errChan w = (r, errChan', w')"
  shows "\<exists>post. CreateContainer (Address (nodes ! i)) (nodePool (nodes ! i)) p True
                  (taskStart (nodes ! i) w) = (r, post)
               \<and> w' = taskEnd (nodes ! i) r post
               \<and> errChan' = errChan @ (case r of None \<Rightarrow> []
                    | Some err \<Rightarrow> [Errorf (failedMsg (Address (nodes ! i)) (nodePool (nodes ! i)) err)])"
proof -
  obtain r2 w2 where c: "CreateContainer (Address (nodes ! i)) (nodePool (nodes ! i)) p True
                           (taskStart (nodes ! i) w) = (r2, w2)"
    by force
  show ?thesis
    using assms c
    by (cases r2) (auto simp: worker_def Let_def nodePool_def taskStart_def taskEnd_def)
qed

lemma runWorkers_tasks:
  assumes "runWorkers p nodes sched errChan w = (rs, errChan', w')"
  shows "\<exists>ws post. length ws = Suc (length sched) \<and> length post = length sched
           \<and> ws ! 0 = w
           \<and> (\<forall>j<length sched.
                 CreateContainer (Address (nodes ! (sched ! j))) (nodePool (nodes ! (sched ! j))) p True
                   (taskStart (nodes ! (sched ! j)) (ws ! j)) = (rs ! j, post ! j)
                 \<and> ws ! Suc j = taskEnd (nodes ! (sched ! j)) (rs ! j) (post ! j))
           \<and> w' = ws ! length sched
           \<and> errChan' = errChan @ concat (map (sent nodes) (zip sched rs))"
  using assms
proof (induction sched arbitrary: errChan w rs errChan' w')
  case Nil
  then show ?case by (intro exI [of _ "[w]"] exI [of _ "[]"]) simp
next
  case (Cons i sched)
  obtain r1 ch1 w1 where wk: "worker p nodes i errChan w = (r1, ch1, w1)"
    by (cases "worker p nodes i errChan w") auto
  obtain rs2 ch2 w2 where rw: "runWorkers p nodes sched ch1 w1 = (rs2, ch2, w2)"
    by (cases "runWorkers p nodes sched ch1 w1") auto
  from Cons.prems wk rw have eq: "rs = r1 # rs2" "errChan' = ch2" "w' = w2" by auto
  from worker_task [OF wk] obtain post1
    where c1: "CreateContainer (Address (nodes ! i)) (nodePool (nodes ! i)) p True
                 (taskStart (nodes ! i) w) = (r1, post1)"
      and w1: "w1 = taskEnd (nodes ! i) r1 post1"
      and ch1': "ch1 = errChan @ (case r1 of None \<Rightarrow> []
                    | Some err \<Rightarrow> [Errorf (failedMsg (Address (nodes ! i)) (nodePool (nodes ! i)) err)])"
    by blast
  have ch1: "ch1 = errChan @ sent nodes (i, r1)"
    using ch1' by (cases r1) (simp_all add: sent_def)
  from Cons.IH [OF rw] obtain ws2 post2
    where l: "length ws2 = Suc (length sched)" "length post2 = length sched"
      and z: "ws2 ! 0 = w1"
      and t: "\<forall>j<length sched.
                 CreateContainer (Address (nodes ! (sched ! j))) (nodePool (nodes ! (sched ! j))) p True
                   (taskStart (nodes ! (sched ! j)) (ws2 ! j)) = (rs2 ! j, post2 ! j)
                 \<and> ws2 ! Suc j = taskEnd (nodes ! (sched ! j)) (rs2 ! j) (post2 ! j)"
      and f: "w2 = ws2 ! length sched"
      and ch2: "ch2 = ch1 @ concat (map (sent nodes) (zip sched rs2))"
    by blast
  have tasks: "CreateContainer (Address (nodes ! ((i # sched) ! j)))
                 (nodePool (nodes ! ((i # sched) ! j))) p True
                 (taskStart (nodes ! ((i # sched) ! j)) ((w # ws2) ! j))
               = ((r1 # rs2) ! j, (post1 # post2) ! j)
             \<and> (w # ws2) ! Suc j
               = taskEnd (nodes ! ((i # sched) ! j)) ((r1 # rs2) ! j) ((post1 # post2) ! j)"
    if "j < length (i # sched)" for j
  proof (cases j)
    case 0
    then show ?thesis using c1 w1 z by simp
  next
    case (Suc k)
    with that have "k < length sched" by simp
    with t Suc show ?thesis by simp
  qed
  show ?case
    unfolding eq
  proof (rule exI [of _ "w # ws2"], rule exI [of _ "post1 # post2"], intro conjI)
    show "length (w # ws2) = Suc (length (i # sched))" using l by simp
    show "length (post1 # post2) = length (i # sched)" using l by simp
    show "(w # ws2) ! 0 = w" by simp
    show "\<forall>j<length (i # sched).
            CreateContainer (Address (nodes ! ((i # sched) ! j)))
              (nodePool (nodes ! ((i # sched) ! j))) p True
              (taskStart (nodes ! ((i # sched) ! j)) ((w # ws2) ! j))
            = ((r1 # rs2) ! j, (post1 # post2) ! j)
          \<and> (w # ws2) ! Suc j
            = taskEnd (nodes ! ((i # sched) ! j)) ((r1 # rs2) ! j) ((post1 # post2) ! j)"
      using tasks by blast
    show "w2 = (w # ws2) ! length (i # sched)" using f by simp
    show "ch2 = errChan @ concat (map (sent nodes) (zip (i # sched) (r1 # rs2)))"
      using ch1 ch2 by simp
  qed
qed

lemma first_sent:
  "j < length zs \<Longrightarrow> f (zs ! j) = [e] \<Longrightarrow> \<forall>k<j. f (zs ! k) = [] \<Longrightarrow>
   concat (map f zs) \<noteq> [] \<and> hd (concat (map f zs)) = e"
proof (induction zs arbitrary: j)
  case Nil
  then show ?case by simp
next
  case (Cons z zs)
  show ?case
  proof (cases j)
    case 0
    with Cons.prems show ?thesis by simp
  next
    case (Suc m)
    with Cons.prems have m: "m < length zs" "f (zs ! m) = [e]" by simp_all
    have before: "\<forall>k<m. f (zs ! k) = []"
    proof (intro allI impI)
      fix k assume "k < m"
      then have "Suc k < j" using Suc by simp
      with Cons.prems(3) have "f ((z # zs) ! Suc k) = []" by blast
      then show "f (zs ! k) = []" by simp
    qed
    have "f z = []" using Cons.prems(3) Suc by force
    with Cons.IH [OF m before] show ?thesis by simp
  qed
qed

text \<open>
  C8. When the enumeration of the nodes succeeds and each goroutine runs once, in any
  order \<open>sched\<close>: the \<open>j\<close>-th goroutine to run calls \<open>CreateContainer\<close> with
  \<open>relaunch\<close> for the address and pool of its node, in the world \<open>ws ! j\<close> the one
  before it left (the first in the world after the opening message), whatever the
  others returned, and \<open>rs ! j\<close> is what that call returned; every node is the node
  of one of these calls. \<open>RecreateContainers\<close> returns nil exactly when every call
  returned nil, and otherwise one error: the first one sent to the channel, which is
  the message for the first call that failed.
\<close>

theorem RecreateContainers_aggregate:
  assumes "UnfilteredNodes p = Inr nodes"
    and "mset sched = mset [0..<length nodes]"
  shows "\<exists>rs errChan ws post.
           runWorkers p nodes sched [] (emit (LogDebug (recreatingAllMsg (length nodes))) w)
             = (rs, errChan, snd (RecreateContainers p sched w))
           \<and> length rs = length nodes
           \<and> length ws = Suc (length nodes) \<and> length post = length nodes
           \<and> ws ! 0 = emit (LogDebug (recreatingAllMsg (length nodes))) w
           \<and> (\<forall>j<length nodes.
                 CreateContainer (Address (nodes ! (sched ! j))) (nodePool (nodes ! (sched ! j))) p True
                   (taskStart (nodes ! (sched ! j)) (ws ! j)) = (rs ! j, post ! j)
                 \<and> ws ! Suc j = taskEnd (nodes ! (sched ! j)) (rs ! j) (post ! j))
           \<and> snd (RecreateContainers p sched w) = ws ! length nodes
           \<and> (\<forall>i<length nodes. \<exists>j<length nodes. sched ! j = i)
           \<and> length errChan = length (filter (\<lambda>r. r \<noteq> None) rs)
           \<and> (fst (RecreateContainers p sched w) = None \<longleftrightarrow> (\<forall>r\<in>set rs. r = None))
           \<and> (fst (RecreateContainers p sched w) \<noteq> None \<longleftrightarrow> (\<exists>r\<in>set rs. r \<noteq> None))
           \<and> (errChan \<noteq> [] \<longrightarrow> fst (RecreateContainers p sched w) = Some (hd errChan))
           \<and> (\<forall>j<length nodes. \<forall>err. rs ! j = Some err \<and> (\<forall>k<j. rs ! k = None) \<longrightarrow>
                 fst (RecreateContainers p sched w)
                 = Some (Errorf (failedMsg (Address (nodes ! (sched ! j)))
                                   (nodePool (nodes ! (sched ! j))) err)))
           \<and> (\<forall>n\<in>set nodes. \<exists>r0. DockerNewClient (Address n) r0
                                    \<in> set (trace (snd (RecreateContainers p sched w))))"
proof -
  define w1 where "w1 = emit (LogDebug (recreatingAllMsg (length nodes))) w"
  obtain rs errChan w2 where run: "runWorkers p nodes sched [] w1 = (rs, errChan, w2)"
    by (cases "runWorkers p nodes sched [] w1") auto
  have res: "RecreateContainers p sched w
             = ((case errChan of [] \<Rightarrow> None | err # _ \<Rightarrow> Some err), w2)"
    using assms(1) run
    by (cases errChan) (simp_all add: RecreateContainers_def Let_def w1_def [symmetric])
  note rw = runWorkers_run [OF run]
  have len: "length rs = length sched" using rw by (rule conjunct1)
  have ch: "length errChan = length (filter (\<lambda>r. r \<noteq> None) rs)"
    using rw by simp
  have tr: "\<forall>i\<in>set sched. \<exists>r0. DockerNewClient (Address (nodes ! i)) r0 \<in> set (trace w2)"
    using rw by (elim conjE)
  have ls: "length sched = length nodes"
    using mset_eq_length [OF assms(2)] by simp
  with len have l: "length rs = length nodes" by simp
  have set: "set sched = {0..<length nodes}"
    using mset_eq_setD [OF assms(2)] by simp
  from runWorkers_tasks [OF run] obtain ws post
    where wl: "length ws = Suc (length sched)" and pl: "length post = length sched"
      and w0: "ws ! 0 = w1"
      and tasks: "\<forall>j<length sched.
                 CreateContainer (Address (nodes ! (sched ! j))) (nodePool (nodes ! (sched ! j))) p True
                   (taskStart (nodes ! (sched ! j)) (ws ! j)) = (rs ! j, post ! j)
                 \<and> ws ! Suc j = taskEnd (nodes ! (sched ! j)) (rs ! j) (post ! j)"
      and fin: "w2 = ws ! length sched"
      and chan: "errChan = [] @ concat (map (sent nodes) (zip sched rs))"
    by blast
  have none: "(errChan = []) \<longleftrightarrow> (\<forall>r\<in>set rs. r = None)"
    using ch by (auto simp: filter_empty_conv)
  have all: "\<exists>r0. DockerNewClient (Address n) r0 \<in> set (trace w2)" if "n \<in> set nodes" for n
  proof -
    from that obtain i where "i < length nodes" "nodes ! i = n"
      by (auto simp: in_set_conv_nth)
    with set tr show ?thesis by auto
  qed
  have every: "\<exists>j<length nodes. sched ! j = i" if "i < length nodes" for i
  proof -
    from that set have "i \<in> set sched" by simp
    then show ?thesis using ls by (auto simp: in_set_conv_nth)
  qed
  have f: "fst (RecreateContainers p sched w) = (case errChan of [] \<Rightarrow> None | err # _ \<Rightarrow> Some err)"
    by (simp only: res fst_conv)
  have "fst (RecreateContainers p sched w) = None \<longleftrightarrow> errChan = []"
    unfolding f by (cases errChan) simp_all
  with none have r1: "fst (RecreateContainers p sched w) = None \<longleftrightarrow> (\<forall>r\<in>set rs. r = None)"
    by (simp only:)
  have r2: "fst (RecreateContainers p sched w) \<noteq> None \<longleftrightarrow> (\<exists>r\<in>set rs. r \<noteq> None)"
    by (simp add: r1)
  have r3: "errChan \<noteq> [] \<longrightarrow> fst (RecreateContainers p sched w) = Some (hd errChan)"
    unfolding f by (cases errChan) simp_all
  have r4: "fst (RecreateContainers p sched w)
            = Some (Errorf (failedMsg (Address (nodes ! (sched ! j)))
                              (nodePool (nodes ! (sched ! j))) err))"
    if j: "j < length nodes" and e: "rs ! j = Some err" and b: "\<forall>k<j. rs ! k = None" for j err
  proof -
    have jz: "j < length (zip sched rs)" using j ls l by simp
    have at: "sent nodes (zip sched rs ! j)
              = [Errorf (failedMsg (Address (nodes ! (sched ! j))) (nodePool (nodes ! (sched ! j))) err)]"
      using j ls l e by (simp add: sent_def)
    have before: "\<forall>k<j. sent nodes (zip sched rs ! k) = []"
      using j ls l b by (simp add: sent_def)
    from first_sent [OF jz at before] chan
    have "errChan \<noteq> []"
      and "hd errChan = Errorf (failedMsg (Address (nodes ! (sched ! j)))
                                  (nodePool (nodes ! (sched ! j))) err)"
      by simp_all
    with r3 show ?thesis by simp
  qed
  show ?thesis
  proof (rule exI [of _ rs], rule exI [of _ errChan], rule exI [of _ ws], rule exI [of _ post],
      intro conjI)
    show "runWorkers p nodes sched [] (emit (LogDebug (recreatingAllMsg (length nodes))) w)
          = (rs, errChan, snd (RecreateContainers p sched w))"
      using run by (simp only: res snd_conv w1_def)
    show "length rs = length nodes" by (rule l)
    show "length ws = Suc (length nodes)" using wl ls by simp
    show "length post = length nodes" using pl ls by simp
    show "ws ! 0 = emit (LogDebug (recreatingAllMsg (length nodes))) w"
      using w0 by (simp only: w1_def)
    show "\<forall>j<length nodes.
            CreateContainer (Address (nodes ! (sched ! j))) (nodePool (nodes ! (sched ! j))) p True
              (taskStart (nodes ! (sched ! j)) (ws ! j)) = (rs ! j, post ! j)
            \<and> ws ! Suc j = taskEnd (nodes ! (sched ! j)) (rs ! j) (post ! j)"
      using tasks by (simp only: ls)
    show "snd (RecreateContainers p sched w) = ws ! length nodes"
      using fin by (simp only: res snd_conv ls)
    show "\<forall>i<length nodes. \<exists>j<length nodes. sched ! j = i"
      using every by blast
    show "length errChan = length (filter (\<lambda>r. r \<noteq> None) rs)" by (rule ch)
    show "fst (RecreateContainers p sched w) = None \<longleftrightarrow> (\<forall>r\<in>set rs. r = None)" by (rule r1)
    show "fst (RecreateContainers p sched w) \<noteq> None \<longleftrightarrow> (\<exists>r\<in>set rs. r \<noteq> None)" by (rule r2)
    show "errChan \<noteq> [] \<longrightarrow> fst (RecreateContainers p sched w) = Some (hd errChan)" by (rule r3)
    show "\<forall>j<length nodes. \<forall>err. rs ! j = Some err \<and> (\<forall>k<j. rs ! k = None) \<longrightarrow>
            fst (RecreateContainers p sched w)
            = Some (Errorf (failedMsg (Address (nodes ! (sched ! j)))
                              (nodePool (nodes ! (sched ! j))) err))"
      using r4 by blast
    show "\<forall>n\<in>set nodes. \<exists>r0. DockerNewClient (Address n) r0
                               \<in> set (trace (snd (RecreateContainers p sched w)))"
      using all by (simp only: res snd_conv) blast
  qed
qed

text \<open>
  Two nodes, the goroutine of the second one first: its node cannot be reached, the
  error is returned, and \<open>CreateContainer\<close> is run for the first node all the same.
\<close>

theorem RecreateContainers_aggregate_witness:
  "UnfilteredNodes someProvisioner = Inr twoNodes
   \<and> mset [1, 0] = mset [0..<length twoNodes]
   \<and> fst (worker someProvisioner twoNodes 1 []
             (emit (LogDebug (recreatingAllMsg (length twoNodes))) unreachableFirst))
       = Some (ErrExternal ''unreachable'')
   \<and> fst (RecreateContainers someProvisioner [1, 0] unreachableFirst) \<noteq> None
   \<and> (\<exists>r0. DockerNewClient ''http://n1:2375'' r0
               \<in> set (trace (snd (RecreateContainers someProvisioner [1, 0] unreachableFirst))))"
proof -
  let ?w1 = "emit (LogDebug (recreatingAllMsg (length twoNodes))) unreachableFirst"
  have n: "UnfilteredNodes someProvisioner = Inr twoNodes"
    by (simp add: someProvisioner_def)
  have len: "length twoNodes = 2" by (simp add: twoNodes_def)
  have "[0..<2] = [0, 1]" by (simp add: upt_rec)
  then have s: "mset [1, 0] = mset [0..<length twoNodes]" by (simp add: len)
  have f: "fst (worker someProvisioner twoNodes 1 [] ?w1) = Some (ErrExternal ''unreachable'')"
    by (simp add: worker_def twoNodes_def CreateContainer_def NewClient_def ask_def answerErr_def
        unreachableFirst_def emptyWorld_def emit_def Let_def)
  obtain r1 ch1 w1 where a: "worker someProvisioner twoNodes 1 [] ?w1 = (r1, ch1, w1)"
    by (cases "worker someProvisioner twoNodes 1 [] ?w1") auto
  obtain rs2 ch2 w2 where b: "runWorkers someProvisioner twoNodes [0] ch1 w1 = (rs2, ch2, w2)"
    by (cases "runWorkers someProvisioner twoNodes [0] ch1 w1") auto
  have r1: "r1 = Some (ErrExternal ''unreachable'')" using f a by simp
  have run: "runWorkers someProvisioner twoNodes [1, 0] [] ?w1 = (r1 # rs2, ch2, w2)"
    using a b runWorkers.simps(2) [of someProvisioner twoNodes 1 "[0]" "[]" ?w1] by simp
  have a1: "Address (twoNodes ! 0) = ''http://n1:2375''" and a2: "twoNodes ! 0 \<in> set twoNodes"
    by (simp_all add: twoNodes_def)
  from RecreateContainers_aggregate [OF n s, of unreachableFirst]
  obtain rs errChan and ws :: "world list" and post :: "world list"
    where t1: "runWorkers someProvisioner twoNodes [1, 0] [] ?w1
               = (rs, errChan, snd (RecreateContainers someProvisioner [1, 0] unreachableFirst))"
      and t2: "fst (RecreateContainers someProvisioner [1, 0] unreachableFirst) \<noteq> None
               \<longleftrightarrow> (\<exists>r\<in>set rs. r \<noteq> None)"
      and t3: "\<forall>n\<in>set twoNodes. \<exists>r0. DockerNewClient (Address n) r0
                 \<in> set (trace (snd (RecreateContainers someProvisioner [1, 0] unreachableFirst)))"
    by blast
  have "rs = r1 # rs2" using t1 run by simp
  with t2 r1 have failed: "fst (RecreateContainers someProvisioner [1, 0] unreachableFirst) \<noteq> None"
    by simp
  have first: "\<exists>r0. DockerNewClient ''http://n1:2375'' r0
                 \<in> set (trace (snd (RecreateContainers someProvisioner [1, 0] unreachableFirst)))"
    using t3 a1 a2 by metis
  from n s f failed first show ?thesis by (intro conjI)
qed


subsection \<open>The reserved keys in the environment list\<close>

lemma entryKey_append: "entryKey (k @ CHR ''='' # v) = entryKey k"
  by (induction k) (simp_all add: entryKey_def)

lemma entryKey_format: "entryKey (formatEnv (k, v)) = entryKey k"
  by (simp add: formatEnv_def entryKey_append)

lemma forbidden_entryKey: "forbiddenList k \<Longrightarrow> entryKey k = k"
  by (auto simp: forbiddenList_def entryKey_def)

lemma updateEnvs_keys:
  "dom (map_of (snd (updateEnvs es m))) \<subseteq> dom (map_of m) \<union> Name ` set es"
proof (induction es arbitrary: m)
  case Nil
  show ?case by simp
next
  case (Cons e es)
  have d: "dom (map_of (AList.delete (Name e) m)) \<subseteq> dom (map_of m)"
    by (simp add: delete_conv')
  have u: "dom (map_of (AList.update (Name e) (Value e) m)) = insert (Name e) (dom (map_of m))"
    by (simp add: update_conv')
  show ?case
  proof (cases "forbiddenList (Name e)")
    case True
    then show ?thesis by auto
  next
    case False
    show ?thesis
    proof (cases "Value e = []")
      case True
      with False Cons.IH [of "AList.delete (Name e) m"] d show ?thesis
        by (auto simp: subset_iff)
    next
      case nonempty: False
      with False Cons.IH [of "AList.update (Name e) (Value e) m"] u show ?thesis
        by (auto simp: subset_iff)
    qed
  qed
qed

lemma updatePools_keys:
  "poolKeys (snd (updatePools ps pm)) pool \<subseteq> poolKeys pm pool \<union> Name ` set (poolEntries ps pool)"
proof (induction ps arbitrary: pm)
  case Nil
  show ?case by simp
next
  case (Cons q ps)
  define created where "created = (case map_of pm (Pool_Name q) of None \<Rightarrow> [] | Some m \<Rightarrow> m)"
  obtain r m1 where run: "updateEnvs (Pool_Envs q) created = (r, m1)" by force
  have k1: "dom (map_of m1) \<subseteq> dom (map_of created) \<union> Name ` set (Pool_Envs q)"
    using updateEnvs_keys [of "Pool_Envs q" created] run by simp
  have c: "dom (map_of created) = poolKeys pm (Pool_Name q)"
    by (simp add: created_def poolKeys_def split: option.splits)
  define pm1 where "pm1 = AList.update (Pool_Name q) m1 pm"
  have p1: "poolKeys pm1 pool = (if pool = Pool_Name q then dom (map_of m1) else poolKeys pm pool)"
    by (simp add: pm1_def poolKeys_def update_conv')
  have before: "poolKeys pm1 pool \<subseteq> poolKeys pm pool \<union> Name ` set (poolEntries [q] pool)"
    using k1 c by (auto simp: p1 poolEntries_def)
  have split: "poolEntries (q # ps) pool = poolEntries [q] pool @ poolEntries ps pool"
    by (simp add: poolEntries_def)
  show ?case
  proof (cases r)
    case (Some err)
    then have "snd (updatePools (q # ps) pm) = pm1"
      using run by (simp add: created_def [symmetric] pm1_def)
    with before show ?thesis by (auto simp: split)
  next
    case None
    then have "snd (updatePools (q # ps) pm) = snd (updatePools ps pm1)"
      using run by (simp add: created_def [symmetric] pm1_def)
    with Cons.IH [of pm1] before show ?thesis by (auto simp: split)
  qed
qed

lemma poolEntries_names: "Name ` set (poolEntries (Pools conf) pool) \<subseteq> set (patchNames conf)"
  by (auto simp: poolEntries_def patchNames_def)

lemma globalEntries_names: "Name ` set (Envs conf) \<subseteq> set (patchNames conf)"
  by (auto simp: patchNames_def)

lemma UpdateEnvMaps_None:
  assumes "UpdateEnvMaps conf em pm = (None, em', pm')"
  shows "em' = snd (updateEnvs (Envs conf) em)" "pm' = snd (updatePools (Pools conf) pm)"
  using assms by (auto simp: UpdateEnvMaps_def split: prod.splits option.splits)

lemma merged_keys:
  assumes "UpdateEnvMaps conf [] [] = (None, em, pm)"
  shows "fst ` set em \<subseteq> set (patchNames conf)"
    and "map_of pm pool = Some m \<Longrightarrow> fst ` set m \<subseteq> set (patchNames conf)"
proof -
  note u = UpdateEnvMaps_None [OF assms]
  have "dom (map_of em) \<subseteq> set (patchNames conf)"
    using updateEnvs_keys [of "Envs conf" "[]"] globalEntries_names [of conf] u(1) by auto
  then show "fst ` set em \<subseteq> set (patchNames conf)"
    by (simp add: dom_map_of_conv_image_fst)
  show "fst ` set m \<subseteq> set (patchNames conf)" if "map_of pm pool = Some m"
  proof -
    have "poolKeys pm pool = dom (map_of m)" using that by (simp add: poolKeys_def)
    moreover have "poolKeys [] pool = {}" by (simp add: poolKeys_def)
    ultimately have "dom (map_of m) \<subseteq> set (patchNames conf)"
      using updatePools_keys [of "Pools conf" "[]" pool] poolEntries_names [of conf pool] u(2)
      by auto
    then show ?thesis by (simp add: dom_map_of_conv_image_fst)
  qed
qed

lemma EnvListForEndpoint_runs:
  assumes "EnvListForEndpoint conf ep pool w = (r, conf', w')"
  shows "(\<exists>err. getToken conf w = (Inl err, conf', w') \<and> r = Inl err)
       \<or> (\<exists>token err em pm. getToken conf w = (Inr token, conf', w')
             \<and> UpdateEnvMaps conf' [] [] = (Some err, em, pm) \<and> r = Inl err)
       \<or> (\<exists>token em pm. getToken conf w = (Inr token, conf', w')
             \<and> UpdateEnvMaps conf' [] [] = (None, em, pm)
             \<and> r = Inr ([''DOCKER_ENDPOINT='' @ bsEndpoint ep w,
                         ''TSURU_ENDPOINT='' @ tsuruEndpointURL w,
                         ''TSURU_TOKEN='' @ token,
                         ''SYSLOG_LISTEN_ADDRESS=udp://0.0.0.0:'' @ Itoa (SysLogPort w')]
                        @ map formatEnv (rangeEnvMap w' em)
                        @ map formatEnv (case map_of pm pool of None \<Rightarrow> [] | Some m \<Rightarrow> rangeEnvMap w' m)))"
proof -
  obtain t conf1 w1 where g: "getToken conf w = (t, conf1, w1)"
    by (cases "getToken conf w") auto
  obtain u em pm where up: "UpdateEnvMaps conf1 [] [] = (u, em, pm)"
    by (cases "UpdateEnvMaps conf1 [] []") auto
  show ?thesis
  proof (cases t)
    case (Inl err)
    with assms g show ?thesis by (auto simp: EnvListForEndpoint_def Let_def)
  next
    case (Inr token)
    show ?thesis
    proof (cases u)
      case (Some err)
      with assms g Inr up show ?thesis by (auto simp: EnvListForEndpoint_def Let_def)
    next
      case None
      with assms g Inr up show ?thesis by (auto simp: EnvListForEndpoint_def Let_def)
    qed
  qed
qed


lemma seeds_once:
  assumes "forbiddenList k"
  shows "length (filter (\<lambda>s. entryKey s = k)
           [''DOCKER_ENDPOINT='' @ a, ''TSURU_ENDPOINT='' @ b, ''TSURU_TOKEN='' @ c,
            ''SYSLOG_LISTEN_ADDRESS=udp://0.0.0.0:'' @ d]) = 1"
  using assms by (auto simp: forbiddenList_def entryKey_def)

lemma merged_not_reserved:
  assumes "\<forall>k\<in>set (patchNames conf). \<not> forbiddenList (entryKey k)"
    and "fst ` set m \<subseteq> set (patchNames conf)"
    and "set ms = set m"
    and "s \<in> set (map formatEnv ms)"
  shows "\<not> forbiddenList (entryKey s)"
proof -
  from assms(4) obtain a b where ab: "(a, b) \<in> set ms" "s = formatEnv (a, b)" by auto
  then have "a \<in> fst ` set m" using assms(3) by force
  then have "\<not> forbiddenList (entryKey a)" using assms(1,2) by blast
  then show ?thesis by (simp add: ab(2) entryKey_format)
qed

lemma names_not_forbidden:
  assumes "\<forall>k\<in>set (patchNames conf). \<not> forbiddenList (entryKey k)"
  shows "\<forall>k\<in>set (patchNames conf). \<not> forbiddenList k"
  using assms forbidden_entryKey by fastforce

lemma EnvListForEndpoint_list:
  assumes walk: "\<forall>m. mset (rangeEnvMap w m) = mset m"
    and names: "\<forall>k\<in>set (patchNames conf'). \<not> forbiddenList (entryKey k)"
    and tok: "getToken conf w = (Inr token, conf', w')"
    and up: "UpdateEnvMaps conf' [] [] = (None, em, pm)"
    and l: "envList = [''DOCKER_ENDPOINT='' @ a, ''TSURU_ENDPOINT='' @ b, ''TSURU_TOKEN='' @ c,
                       ''SYSLOG_LISTEN_ADDRESS=udp://0.0.0.0:'' @ d]
                      @ map formatEnv (rangeEnvMap w' em)
                      @ map formatEnv (case map_of pm pool of None \<Rightarrow> [] | Some m \<Rightarrow> rangeEnvMap w' m)"
  shows "take 4 envList = [''DOCKER_ENDPOINT='' @ a, ''TSURU_ENDPOINT='' @ b, ''TSURU_TOKEN='' @ c,
                           ''SYSLOG_LISTEN_ADDRESS=udp://0.0.0.0:'' @ d]"
    and "\<forall>s\<in>set (drop 4 envList). \<not> forbiddenList (entryKey s)"
    and "\<forall>k. forbiddenList k \<longrightarrow> length (filter (\<lambda>s. entryKey s = k) envList) = 1"
proof -
  let ?seeds = "[''DOCKER_ENDPOINT='' @ a, ''TSURU_ENDPOINT='' @ b, ''TSURU_TOKEN='' @ c,
                 ''SYSLOG_LISTEN_ADDRESS=udp://0.0.0.0:'' @ d]"
  let ?g = "map formatEnv (rangeEnvMap w' em)"
  let ?p = "map formatEnv (case map_of pm pool of None \<Rightarrow> [] | Some m \<Rightarrow> rangeEnvMap w' m)"
  have same: "rangeEnvMap w' = rangeEnvMap w"
    using quiet_getToken [OF tok] by (simp add: quiet_def)
  have set: "set (rangeEnvMap w' m) = set m" for m
    using walk mset_eq_setD [of "rangeEnvMap w m" m] by (simp add: same)
  note keys = merged_keys [OF up]
  have g: "\<not> forbiddenList (entryKey s)" if "s \<in> set ?g" for s
    using merged_not_reserved [OF names keys(1) set that] .
  have p: "\<not> forbiddenList (entryKey s)" if "s \<in> set ?p" for s
  proof (cases "map_of pm pool")
    case None
    with that show ?thesis by simp
  next
    case (Some m)
    with that have "s \<in> set (map formatEnv (rangeEnvMap w' m))" by simp
    from merged_not_reserved [OF names keys(2) [OF Some] set this] show ?thesis .
  qed
  show t: "take 4 envList = ?seeds" by (simp add: l)
  have dr: "drop 4 envList = ?g @ ?p" by (simp add: l)
  have gp: "\<not> forbiddenList (entryKey s)" if "s \<in> set (?g @ ?p)" for s
  proof -
    from that have "s \<in> set ?g \<or> s \<in> set ?p" by (simp only: set_append Un_iff)
    then show ?thesis using g p by blast
  qed
  show m: "\<forall>s\<in>set (drop 4 envList). \<not> forbiddenList (entryKey s)"
    unfolding dr using gp by blast
  show "\<forall>k. forbiddenList k \<longrightarrow> length (filter (\<lambda>s. entryKey s = k) envList) = 1"
  proof (intro allI impI)
    fix k
    assume k: "forbiddenList k"
    have "\<forall>s\<in>set (?g @ ?p). \<not> entryKey s = k"
      using gp k by blast
    then have "filter (\<lambda>s. entryKey s = k) (?g @ ?p) = []"
      by (simp only: filter_empty_conv)
    moreover have "envList = ?seeds @ (?g @ ?p)" by (simp add: l)
    ultimately have "filter (\<lambda>s. entryKey s = k) envList = filter (\<lambda>s. entryKey s = k) ?seeds"
      by (simp only: filter_append append_Nil2)
    then show "length (filter (\<lambda>s. entryKey s = k) envList) = 1"
      using seeds_once [OF k, of a b c d] by simp
  qed
qed


lemma getToken_cached: "Token conf \<noteq> [] \<Longrightarrow> getToken conf w = (Inr (Token conf), conf, w)"
  by (simp add: getToken_def)

text \<open>
  C1, as the specification states it, fails: \<open>UpdateEnvMaps\<close> refuses the four reserved
  names only when a name is equal to one of them. The name
  \<open>DOCKER_ENDPOINT=tcp://elsewhere:2375\<close> is not forbidden, and its entry in the list,
  \<open>DOCKER_ENDPOINT=tcp://elsewhere:2375=1\<close>, is a second entry that sets
  \<open>DOCKER_ENDPOINT\<close>, after the seeded one.
\<close>

theorem EnvListForEndpoint_shadowed_counterexample:
  "\<not> (\<exists>k\<in>set (patchNames shadowingConfig). forbiddenList k)
   \<and> fst (EnvListForEndpoint shadowingConfig ''http://n1:2375'' ''p1'' emptyWorld)
       = Inr [''DOCKER_ENDPOINT=http://n1:2375'', ''TSURU_ENDPOINT=http://tsuru.example.com/'',
              ''TSURU_TOKEN=cached'', ''SYSLOG_LISTEN_ADDRESS=udp://0.0.0.0:1514'',
              ''DOCKER_ENDPOINT=tcp://elsewhere:2375=1'']
   \<and> length (filter (\<lambda>s. entryKey s = ''DOCKER_ENDPOINT'')
               [''DOCKER_ENDPOINT=http://n1:2375'', ''TSURU_ENDPOINT=http://tsuru.example.com/'',
                ''TSURU_TOKEN=cached'', ''SYSLOG_LISTEN_ADDRESS=udp://0.0.0.0:1514'',
                ''DOCKER_ENDPOINT=tcp://elsewhere:2375=1'']) = 2
   \<and> forbiddenList (entryKey ''DOCKER_ENDPOINT=tcp://elsewhere:2375=1'')"
proof -
  have a: "\<not> (\<exists>k\<in>set (patchNames shadowingConfig). forbiddenList k)" by code_simp
  have b: "fst (EnvListForEndpoint shadowingConfig ''http://n1:2375'' ''p1'' emptyWorld)
       = Inr [''DOCKER_ENDPOINT=http://n1:2375'', ''TSURU_ENDPOINT=http://tsuru.example.com/'',
              ''TSURU_TOKEN=cached'', ''SYSLOG_LISTEN_ADDRESS=udp://0.0.0.0:1514'',
              ''DOCKER_ENDPOINT=tcp://elsewhere:2375=1'']"
    by code_simp
  have c: "length (filter (\<lambda>s. entryKey s = ''DOCKER_ENDPOINT'')
               [''DOCKER_ENDPOINT=http://n1:2375'', ''TSURU_ENDPOINT=http://tsuru.example.com/'',
                ''TSURU_TOKEN=cached'', ''SYSLOG_LISTEN_ADDRESS=udp://0.0.0.0:1514'',
                ''DOCKER_ENDPOINT=tcp://elsewhere:2375=1'']) = 2"
    by code_simp
  have d: "forbiddenList (entryKey ''DOCKER_ENDPOINT=tcp://elsewhere:2375=1'')" by code_simp
  from a b c d show ?thesis by (intro conjI)
qed

text \<open>
  C1, amended. Let the configuration that \<open>EnvListForEndpoint\<close> reads after
  \<open>getToken\<close> (\<open>conf\<close> itself when it holds a token) have no entry name that is a
  reserved key or begins with a reserved key followed by \<open>=\<close>, and let the runtime
  walk each map once. Then a returned list starts with the four entries for
  \<open>DOCKER_ENDPOINT\<close>, \<open>TSURU_ENDPOINT\<close>, \<open>TSURU_TOKEN\<close> and \<open>SYSLOG_LISTEN_ADDRESS\<close>
  with the computed values, holds exactly one entry for each of these keys, and no
  entry after the fourth sets one of them; an error can then only be the error of
  \<open>getToken\<close>, and with a token obtained a list is returned. If the configuration
  holds a forbidden key, the result is an error.
\<close>

theorem EnvListForEndpoint_reserved_keys:
  assumes "EnvListForEndpoint conf dockerEndpoint poolName w = (r, conf', w')"
  shows "((\<forall>m. mset (rangeEnvMap w m) = mset m)
          \<and> (\<forall>k\<in>set (patchNames conf'). \<not> forbiddenList (entryKey k)) \<longrightarrow>
            (case r of
               Inl err \<Rightarrow> getToken conf w = (Inl err, conf', w')
             | Inr envList \<Rightarrow>
                 (\<exists>token. getToken conf w = (Inr token, conf', w')
                    \<and> take 4 envList
                        = [''DOCKER_ENDPOINT='' @ bsEndpoint dockerEndpoint w,
                           ''TSURU_ENDPOINT='' @ tsuruEndpointURL w,
                           ''TSURU_TOKEN='' @ token,
                           ''SYSLOG_LISTEN_ADDRESS=udp://0.0.0.0:'' @ Itoa (SysLogPort w)])
                 \<and> (\<forall>k. forbiddenList k \<longrightarrow> length (filter (\<lambda>s. entryKey s = k) envList) = 1)
                 \<and> (\<forall>s\<in>set (drop 4 envList). \<not> forbiddenList (entryKey s))))
         \<and> ((\<exists>k\<in>set (patchNames conf'). forbiddenList k) \<longrightarrow> (\<exists>err. r = Inl err))
         \<and> (Token conf \<noteq> [] \<longrightarrow> conf' = conf \<and> w' = w)"
proof (intro conjI impI)
  assume h: "(\<forall>m. mset (rangeEnvMap w m) = mset m)
             \<and> (\<forall>k\<in>set (patchNames conf'). \<not> forbiddenList (entryKey k))"
  then have walk: "\<forall>m. mset (rangeEnvMap w m) = mset m"
    and names: "\<forall>k\<in>set (patchNames conf'). \<not> forbiddenList (entryKey k)"
    by blast+
  have ok: "find forbiddenList (patchNames conf') = None"
    using names_not_forbidden [OF names] by (simp add: find_None_iff)
  from EnvListForEndpoint_runs [OF assms]
  show "case r of
          Inl err \<Rightarrow> getToken conf w = (Inl err, conf', w')
        | Inr envList \<Rightarrow>
            (\<exists>token. getToken conf w = (Inr token, conf', w')
               \<and> take 4 envList
                   = [''DOCKER_ENDPOINT='' @ bsEndpoint dockerEndpoint w,
                      ''TSURU_ENDPOINT='' @ tsuruEndpointURL w,
                      ''TSURU_TOKEN='' @ token,
                      ''SYSLOG_LISTEN_ADDRESS=udp://0.0.0.0:'' @ Itoa (SysLogPort w)])
            \<and> (\<forall>k. forbiddenList k \<longrightarrow> length (filter (\<lambda>s. entryKey s = k) envList) = 1)
            \<and> (\<forall>s\<in>set (drop 4 envList). \<not> forbiddenList (entryKey s))"
  proof (elim disjE exE conjE)
    fix err
    assume "getToken conf w = (Inl err, conf', w')" "r = Inl err"
    then show ?thesis by simp
  next
    fix token err em pm
    assume "UpdateEnvMaps conf' [] [] = (Some err, em, pm)"
    then have "fst (UpdateEnvMaps conf' [] []) = Some err" by simp
    with ok show ?thesis by (simp add: UpdateEnvMaps_error)
  next
    fix token em pm
    assume tok: "getToken conf w = (Inr token, conf', w')"
      and up: "UpdateEnvMaps conf' [] [] = (None, em, pm)"
      and r: "r = Inr ([''DOCKER_ENDPOINT='' @ bsEndpoint dockerEndpoint w,
                        ''TSURU_ENDPOINT='' @ tsuruEndpointURL w,
                        ''TSURU_TOKEN='' @ token,
                        ''SYSLOG_LISTEN_ADDRESS=udp://0.0.0.0:'' @ Itoa (SysLogPort w')]
                       @ map formatEnv (rangeEnvMap w' em)
                       @ map formatEnv (case map_of pm poolName of None \<Rightarrow> []
                                        | Some m \<Rightarrow> rangeEnvMap w' m))"
    have port: "SysLogPort w' = SysLogPort w"
      using quiet_getToken [OF tok] by (simp add: quiet_def SysLogPort_def)
    note l = EnvListForEndpoint_list [OF walk names tok up refl,
        of "bsEndpoint dockerEndpoint w" "tsuruEndpointURL w" token "Itoa (SysLogPort w)" poolName]
    show ?thesis
      unfolding r port sum.case using tok l by blast
  qed
next
  assume "\<exists>k\<in>set (patchNames conf'). forbiddenList k"
  then obtain k where "find forbiddenList (patchNames conf') = Some k"
    by (cases "find forbiddenList (patchNames conf')") (auto simp: find_None_iff)
  then have "fst (UpdateEnvMaps conf' [] []) \<noteq> None" by (simp add: UpdateEnvMaps_error)
  with EnvListForEndpoint_runs [OF assms] show "\<exists>err. r = Inl err" by auto
next
  assume t: "Token conf \<noteq> []"
  from EnvListForEndpoint_world [OF assms] obtain x where "getToken conf w = (x, conf', w')"
    by blast
  with getToken_cached [OF t, of w] show "conf' = conf" "w' = w" by simp_all
qed

theorem EnvListForEndpoint_reserved_keys_witness:
  "(\<forall>m. mset (rangeEnvMap emptyWorld m) = mset m)
   \<and> \<not> (\<exists>k\<in>set (patchNames plainConfig). forbiddenList (entryKey k))
   \<and> EnvListForEndpoint plainConfig ''http://n1:2375'' ''p1'' emptyWorld
       = (Inr [''DOCKER_ENDPOINT=http://n1:2375'', ''TSURU_ENDPOINT=http://tsuru.example.com/'',
               ''TSURU_TOKEN=cached'', ''SYSLOG_LISTEN_ADDRESS=udp://0.0.0.0:1514'',
               ''LOG_LEVEL=debug'', ''METRICS=on''],
          plainConfig, emptyWorld)
   \<and> length (filter (\<lambda>s. entryKey s = ''TSURU_TOKEN'')
               [''DOCKER_ENDPOINT=http://n1:2375'', ''TSURU_ENDPOINT=http://tsuru.example.com/'',
                ''TSURU_TOKEN=cached'', ''SYSLOG_LISTEN_ADDRESS=udp://0.0.0.0:1514'',
                ''LOG_LEVEL=debug'', ''METRICS=on'']) = 1"
proof -
  let ?run = "EnvListForEndpoint plainConfig ''http://n1:2375'' ''p1'' emptyWorld"
  let ?list = "[''DOCKER_ENDPOINT=http://n1:2375'', ''TSURU_ENDPOINT=http://tsuru.example.com/'',
                ''TSURU_TOKEN=cached'', ''SYSLOG_LISTEN_ADDRESS=udp://0.0.0.0:1514'',
                ''LOG_LEVEL=debug'', ''METRICS=on'']"
  have walk: "\<forall>m. mset (rangeEnvMap emptyWorld m) = mset m" by (simp add: emptyWorld_def)
  have names: "\<not> (\<exists>k\<in>set (patchNames plainConfig). forbiddenList (entryKey k))" by code_simp
  have tok: "Token plainConfig \<noteq> []" by (simp add: plainConfig_def)
  have fk: "forbiddenList ''TSURU_TOKEN''" by (simp add: forbiddenList_def)
  have run: "?run = (fst ?run, fst (snd ?run), snd (snd ?run))" by simp
  have r: "fst ?run = Inr ?list" by code_simp
  from EnvListForEndpoint_world [OF run] obtain x
    where "getToken plainConfig emptyWorld = (x, fst (snd ?run), snd (snd ?run))" by blast
  then have "(Inr (Token plainConfig), plainConfig, emptyWorld) = (x, fst (snd ?run), snd (snd ?run))"
    by (simp only: getToken_cached [OF tok])
  then have same: "fst (snd ?run) = plainConfig \<and> snd (snd ?run) = emptyWorld"
    by (simp only: prod.inject)
  have run': "?run = (Inr ?list, plainConfig, emptyWorld)"
    using run r same by (simp only:)
  have names': "\<forall>k\<in>set (patchNames plainConfig). \<not> forbiddenList (entryKey k)"
    using names by blast
  from EnvListForEndpoint_reserved_keys [OF run']
  have "(\<forall>m. mset (rangeEnvMap emptyWorld m) = mset m)
        \<and> (\<forall>k\<in>set (patchNames plainConfig). \<not> forbiddenList (entryKey k)) \<longrightarrow>
        (case (Inr ?list :: error + string list) of
           Inl err \<Rightarrow> getToken plainConfig emptyWorld = (Inl err, plainConfig, emptyWorld)
         | Inr envList \<Rightarrow>
             (\<exists>token. getToken plainConfig emptyWorld = (Inr token, plainConfig, emptyWorld)
                \<and> take 4 envList
                    = [''DOCKER_ENDPOINT='' @ bsEndpoint ''http://n1:2375'' emptyWorld,
                       ''TSURU_ENDPOINT='' @ tsuruEndpointURL emptyWorld,
                       ''TSURU_TOKEN='' @ token,
                       ''SYSLOG_LISTEN_ADDRESS=udp://0.0.0.0:'' @ Itoa (SysLogPort emptyWorld)])
             \<and> (\<forall>k. forbiddenList k \<longrightarrow> length (filter (\<lambda>s. entryKey s = k) envList) = 1)
             \<and> (\<forall>s\<in>set (drop 4 envList). \<not> forbiddenList (entryKey s)))"
    by (rule conjunct1)
  with walk names' have "\<forall>k. forbiddenList k \<longrightarrow> length (filter (\<lambda>s. entryKey s = k) ?list) = 1"
    by (simp only: sum.case) blast
  with fk have one: "length (filter (\<lambda>s. entryKey s = ''TSURU_TOKEN'') ?list) = 1"
    by blast
  from walk names run' one show ?thesis by (intro conjI)
qed

end
